theory Spec2Isabelle
  imports Complex_Main "HOL-Library.Multiset"
begin

section \<open>Data model of \<^verbatim>\<open>tools/ply_chunker.py\<close>\<close>

text \<open>
  Python floats are read as real numbers throughout: rounding, overflow, infinities and
  NaN are outside this development. Python integers are \<^typ>\<open>int\<close>, list lengths
  and list positions are \<^typ>\<open>nat\<close>. Every exception the modelled code can raise is a
  value of \<open>error\<close>, returned as \<open>Inl\<close>.
\<close>

datatype error = ZeroDivisionError | IndexError | StructError | UnicodeDecodeError | ValueError

text \<open>The dataclass \<^verbatim>\<open>Vertex\<close> (fields x, y, z, r, g, b, full_data).\<close>

record Vertex =
  v_x :: real
  v_y :: real
  v_z :: real
  v_r :: int
  v_g :: int
  v_b :: int
  full_data :: "string list option"

text \<open>The generated constructor \<^verbatim>\<open>Vertex(x, y, z, r, g, b)\<close>; \<^verbatim>\<open>full_data\<close> defaults to \<^verbatim>\<open>None\<close>.\<close>

definition Vertex_new :: "real \<Rightarrow> real \<Rightarrow> real \<Rightarrow> int \<Rightarrow> int \<Rightarrow> int \<Rightarrow> Vertex" where
  "Vertex_new x y z r g b =
     \<lparr>v_x = x, v_y = y, v_z = z, v_r = r, v_g = g, v_b = b, full_data = None\<rparr>"

text \<open>
  A Python list of vertices holds references to \<^verbatim>\<open>Vertex\<close> objects. An object is
  named by a reference; the store maps each reference to the object's current fields.
  Two distinct objects may carry equal fields.
\<close>

type_synonym ref = nat
type_synonym store = "ref \<Rightarrow> Vertex"

text \<open>The bounding-box dictionary \<^verbatim>\<open>{"min": {"x","y","z"}, "max": {"x","y","z"}}\<close>.\<close>

record point3 =
  p_x :: real
  p_y :: real
  p_z :: real

record bbox =
  bb_min :: point3
  bb_max :: point3

text \<open>The dataclass \<^verbatim>\<open>ChunkInfo\<close>.\<close>

record ChunkInfo =
  filename :: string
  vertex_count :: nat
  bounding_box :: bbox
  priority :: nat
  file_size :: nat

text \<open>The fields \<^verbatim>\<open>PLYChunker.__init__\<close> sets.\<close>

record PLYChunker =
  target_chunk_size_mb :: real
  target_chunk_size_bytes :: int

text \<open>\<^verbatim>\<open>int(f)\<close> on a float truncates towards zero.\<close>

definition py_int_of_float :: "real \<Rightarrow> int" where
  "py_int_of_float f = (if 0 \<le> f then \<lfloor>f\<rfloor> else \<lceil>f\<rceil>)"

definition PLYChunker_init :: "real \<Rightarrow> PLYChunker" where
  "PLYChunker_init mb =
     \<lparr>target_chunk_size_mb = mb,
      target_chunk_size_bytes = py_int_of_float (mb * 1024 * 1024)\<rparr>"

section \<open>\<^verbatim>\<open>calculate_bounding_box\<close>\<close>

text \<open>
  The function reads the coordinates of the objects in its argument list, so it is given
  their fields. The accumulators start at \<^verbatim>\<open>float('inf')\<close> and \<^verbatim>\<open>float('-inf')\<close>,
  the neutral elements of \<^verbatim>\<open>min\<close> and \<^verbatim>\<open>max\<close>; on the non-empty list the loop
  runs over, that is the same fold started at the first vertex's coordinate.
\<close>

definition calculate_bounding_box :: "Vertex list \<Rightarrow> bbox" where
  "calculate_bounding_box vertices =
     (if vertices = [] then
        \<lparr>bb_min = \<lparr>p_x = 0, p_y = 0, p_z = 0\<rparr>, bb_max = \<lparr>p_x = 0, p_y = 0, p_z = 0\<rparr>\<rparr>
      else
        let v0 = hd vertices;
            min_x = fold (\<lambda>vertex m. min m (v_x vertex)) vertices (v_x v0);
            min_y = fold (\<lambda>vertex m. min m (v_y vertex)) vertices (v_y v0);
            min_z = fold (\<lambda>vertex m. min m (v_z vertex)) vertices (v_z v0);
            max_x = fold (\<lambda>vertex m. max m (v_x vertex)) vertices (v_x v0);
            max_y = fold (\<lambda>vertex m. max m (v_y vertex)) vertices (v_y v0);
            max_z = fold (\<lambda>vertex m. max m (v_z vertex)) vertices (v_z v0)
        in \<lparr>bb_min = \<lparr>p_x = min_x, p_y = min_y, p_z = min_z\<rparr>,
            bb_max = \<lparr>p_x = max_x, p_y = max_y, p_z = max_z\<rparr>\<rparr>)"

section \<open>\<^verbatim>\<open>chunk_vertices_radial\<close>\<close>

text \<open>
  \<^verbatim>\<open>random.random()\<close> is a source of draws: the \<open>k\<close>-th call returns \<open>rng k\<close>.
  The library promises draws in the half-open interval from 0 to 1; the theorems that
  need this say so.
\<close>

type_synonym random_source = "nat \<Rightarrow> real"

definition draws_in_unit :: "random_source \<Rightarrow> bool" where
  "draws_in_unit rng = (\<forall>k. 0 \<le> rng k \<and> rng k < 1)"

definition vertices_per_chunk :: "PLYChunker \<Rightarrow> int" where
  "vertices_per_chunk self = max 1 (target_chunk_size_bytes self div 20)"

definition origin_distance :: "Vertex \<Rightarrow> real" where
  "origin_distance vertex =
     sqrt (v_x vertex * v_x vertex + v_y vertex * v_y vertex + v_z vertex * v_z vertex)"

text \<open>An entry of \<^verbatim>\<open>vertex_distances\<close>: (distance, original index, vertex object).\<close>

type_synonym entry = "real \<times> nat \<times> ref"

definition entry_vertex :: "entry \<Rightarrow> ref" where
  "entry_vertex e = snd (snd e)"

definition vertex_distances :: "store \<Rightarrow> ref list \<Rightarrow> entry list" where
  "vertex_distances h vertices =
     map (\<lambda>(i, vertex). (origin_distance (h vertex), i, vertex)) (enumerate 0 vertices)"

definition max_distance :: "store \<Rightarrow> ref list \<Rightarrow> real" where
  "max_distance h vertices = fold (\<lambda>vertex m. max m (origin_distance (h vertex))) vertices 0"

text \<open>
  The \<^verbatim>\<open>for\<close> loop of one pass (lines 204 to 224), from position \<open>i\<close> of
  \<^verbatim>\<open>remaining_vertices\<close> on. \<open>n_remaining\<close> is \<^verbatim>\<open>len(remaining_vertices)\<close>, which
  does not change during the scan; \<open>k\<close> counts the draws taken so far. The division by
  \<^verbatim>\<open>max_distance\<close> raises when it is zero.
\<close>

fun scan_pass ::
  "int \<Rightarrow> real \<Rightarrow> nat \<Rightarrow> nat \<Rightarrow> random_source \<Rightarrow> nat \<Rightarrow> nat \<Rightarrow> entry list \<Rightarrow>
   ref list \<Rightarrow> nat list \<Rightarrow> error + (ref list \<times> nat list \<times> nat)" where
  "scan_pass vpc max_d chunk_num n_remaining rng k i [] current_chunk vertices_to_remove =
     Inr (current_chunk, vertices_to_remove, k)"
| "scan_pass vpc max_d chunk_num n_remaining rng k i ((distance, original_index, vertex) # rest)
     current_chunk vertices_to_remove =
     (if max_d = 0 then Inl ZeroDivisionError
      else
        let base_probability = 1 - (distance / max_d * (8 / 10));
            chunk_boost = min (3 / 10) (real (chunk_num - 1) * (1 / 10));
            final_probability = min 1 (base_probability + chunk_boost);
            final_probability =
              (if real n_remaining \<le> real_of_int vpc * (15 / 10) then 1 else final_probability)
        in if rng k < final_probability then
             let current_chunk = current_chunk @ [vertex];
                 vertices_to_remove = vertices_to_remove @ [i]
             in if vpc \<le> int (length current_chunk) then
                  Inr (current_chunk, vertices_to_remove, Suc k)
                else scan_pass vpc max_d chunk_num n_remaining rng (Suc k) (Suc i) rest
                       current_chunk vertices_to_remove
           else scan_pass vpc max_d chunk_num n_remaining rng (Suc k) (Suc i) rest
                  current_chunk vertices_to_remove)"

text \<open>\<^verbatim>\<open>list.pop(i)\<close> raises when \<open>i\<close> is not a position of the list.\<close>

definition pop :: "nat \<Rightarrow> 'a list \<Rightarrow> error + 'a list" where
  "pop i xs = (if i < length xs then Inr (take i xs @ drop (Suc i) xs) else Inl IndexError)"

text \<open>Lines 227 and 228, called on \<^verbatim>\<open>reversed(vertices_to_remove)\<close>.\<close>

fun remove_selected :: "nat list \<Rightarrow> 'a list \<Rightarrow> error + 'a list" where
  "remove_selected [] remaining = Inr remaining"
| "remove_selected (i # idxs) remaining =
     (case pop i remaining of
        Inl e \<Rightarrow> Inl e
      | Inr remaining' \<Rightarrow> remove_selected idxs remaining')"

lemma pop_length: "pop i xs = Inr ys \<Longrightarrow> Suc (length ys) = length xs"
  by (auto simp: pop_def split: if_splits)

lemma remove_selected_length:
  "remove_selected idxs xs = Inr ys \<Longrightarrow> length ys + length idxs = length xs"
proof (induction idxs arbitrary: xs)
  case Nil
  then show ?case by simp
next
  case (Cons i idxs)
  then obtain zs where p: "pop i xs = Inr zs" and r: "remove_selected idxs zs = Inr ys"
    by (auto split: sum.splits)
  from Cons.IH [OF r] pop_length [OF p] show ?case by simp
qed

text \<open>
  The \<^verbatim>\<open>while remaining_vertices\<close> loop (lines 198 to 251). The result carries the
  chunks, whether the safety check appended its forced final chunk (the run then prints
  the \<^verbatim>\<open>forced inclusion\<close> line), and the number of draws taken. The distance
  statistics of lines 235 to 241 are only printed.
\<close>

function radial_loop ::
  "int \<Rightarrow> real \<Rightarrow> random_source \<Rightarrow> nat \<Rightarrow> nat \<Rightarrow> ref list list \<Rightarrow> entry list \<Rightarrow>
   error + (ref list list \<times> bool \<times> nat)" where
  "radial_loop vpc max_d rng k chunk_num chunks remaining_vertices =
     (if remaining_vertices = [] then Inr (chunks, False, k)
      else
        case scan_pass vpc max_d (Suc chunk_num) (length remaining_vertices) rng k 0
               remaining_vertices [] [] of
          Inl e \<Rightarrow> Inl e
        | Inr (current_chunk, vertices_to_remove, k') \<Rightarrow>
            (case remove_selected (rev vertices_to_remove) remaining_vertices of
               Inl e \<Rightarrow> Inl e
             | Inr remaining' \<Rightarrow>
                 let chunks' = (if current_chunk \<noteq> [] then chunks @ [current_chunk] else chunks)
                 in if length vertices_to_remove = 0 \<and> remaining' \<noteq> [] then
                      let final_chunk = map entry_vertex remaining'
                      in if final_chunk \<noteq> [] then Inr (chunks' @ [final_chunk], True, k')
                         else Inr (chunks', False, k')
                    else radial_loop vpc max_d rng k' (Suc chunk_num) chunks' remaining'))"
  by pat_completeness auto
termination
proof (relation "measure (\<lambda>(vpc, max_d, rng, k, chunk_num, chunks, remaining). length remaining)")
  show "wf (measure (\<lambda>(vpc, max_d, rng, k, chunk_num, chunks, remaining). length remaining))"
    by simp
next
  fix vpc :: int and max_d :: real and rng :: random_source and k chunk_num :: nat
    and chunks :: "ref list list" and remaining_vertices :: "entry list"
    and x2 :: "ref list \<times> nat list \<times> nat" and current_chunk :: "ref list"
    and y :: "nat list \<times> nat" and vertices_to_remove :: "nat list" and k' :: nat
    and remaining' :: "entry list" and chunks' :: "ref list list"
  assume ne: "remaining_vertices \<noteq> []"
    and y: "(vertices_to_remove, k') = y"
    and rs: "remove_selected (rev vertices_to_remove) remaining_vertices = Inr remaining'"
    and nb: "\<not> (length vertices_to_remove = 0 \<and> remaining' \<noteq> [])"
  from remove_selected_length [OF rs]
  have len: "length remaining' + length vertices_to_remove = length remaining_vertices" by simp
  from nb have "0 < length vertices_to_remove \<or> length remaining' = 0" by auto
  moreover from ne have "0 < length remaining_vertices" by simp
  ultimately have "length remaining' < length remaining_vertices"
    using len by linarith
  then show "((vpc, max_d, rng, k', Suc chunk_num, chunks', remaining'),
              (vpc, max_d, rng, k, chunk_num, chunks, remaining_vertices))
             \<in> measure (\<lambda>(vpc, max_d, rng, k, chunk_num, chunks, remaining). length remaining)"
    by simp
qed

declare radial_loop.simps [simp del]

text \<open>
  The whole method with its log: \<^verbatim>\<open>vertex_distances.sort(key=...)\<close> is a stable sort,
  as \<^const>\<open>sort_key\<close> is.
\<close>

definition chunk_vertices_radial_log ::
  "PLYChunker \<Rightarrow> store \<Rightarrow> random_source \<Rightarrow> ref list \<Rightarrow> error + (ref list list \<times> bool)" where
  "chunk_vertices_radial_log self h rng vertices =
     (case radial_loop (vertices_per_chunk self) (max_distance h vertices) rng 0 0 []
             (sort_key fst (vertex_distances h vertices)) of
        Inl e \<Rightarrow> Inl e
      | Inr (chunks, forced, k) \<Rightarrow> Inr (chunks, forced))"

definition chunk_vertices_radial ::
  "PLYChunker \<Rightarrow> store \<Rightarrow> random_source \<Rightarrow> ref list \<Rightarrow> error + ref list list" where
  "chunk_vertices_radial self h rng vertices =
     (case chunk_vertices_radial_log self h rng vertices of
        Inl e \<Rightarrow> Inl e
      | Inr (chunks, forced) \<Rightarrow> Inr chunks)"

section \<open>Scale normalization (lines 352 to 378 of \<^verbatim>\<open>chunk_ply_file\<close>)\<close>

text \<open>The largest of the three sizes of a bounding box, \<^verbatim>\<open>max_dimension\<close>.\<close>

definition max_dimension :: "bbox \<Rightarrow> real" where
  "max_dimension bb =
     (let min_coords = bb_min bb;
          max_coords = bb_max bb;
          size_x = p_x max_coords - p_x min_coords;
          size_y = p_y max_coords - p_y min_coords;
          size_z = p_z max_coords - p_z min_coords
      in max (max size_x size_y) size_z)"

definition scale_vertex :: "real \<Rightarrow> Vertex \<Rightarrow> Vertex" where
  "scale_vertex scale_factor vertex =
     vertex\<lparr>v_x := v_x vertex * scale_factor,
            v_y := v_y vertex * scale_factor,
            v_z := v_z vertex * scale_factor\<rparr>"

text \<open>
  The loop of lines 371 to 374 updates each object of the list in place; the result is the
  store after it and \<^verbatim>\<open>scale_factor\<close>.
\<close>

definition scale_normalize :: "store \<Rightarrow> ref list \<Rightarrow> store \<times> real" where
  "scale_normalize h vertices =
     (let original_bbox = calculate_bounding_box (map h vertices);
          max_dim = max_dimension original_bbox
      in if 50 < max_dim then
           let scale_factor = 20 / max_dim
           in (fold (\<lambda>vertex h. h(vertex := scale_vertex scale_factor (h vertex))) vertices h,
               scale_factor)
         else (h, 1))"

section \<open>\<^verbatim>\<open>write_ply_chunk\<close>\<close>

text \<open>
  The method copies the list it is given and appends eight new \<^verbatim>\<open>Vertex\<close> objects; it
  only reads the fields of the objects, so it is given their fields. A dictionary with the
  keys \<^verbatim>\<open>min\<close> and \<^verbatim>\<open>max\<close> is true in \<^verbatim>\<open>if overall_bbox:\<close>; the default
  \<^verbatim>\<open>None\<close> is not. The method returns the size of the file written: the header and
  15 bytes per record. Packing a coordinate to 32 bits is a matter of floating point and is
  not modelled: a record of the file is the vertex's fields.
\<close>

definition anchor_points :: "bbox \<Rightarrow> Vertex list" where
  "anchor_points overall_bbox =
     (let min_x = p_x (bb_min overall_bbox); min_y = p_y (bb_min overall_bbox);
          min_z = p_z (bb_min overall_bbox);
          max_x = p_x (bb_max overall_bbox); max_y = p_y (bb_max overall_bbox);
          max_z = p_z (bb_max overall_bbox)
      in [Vertex_new min_x min_y min_z 0 0 0,
          Vertex_new max_x min_y min_z 0 0 0,
          Vertex_new min_x max_y min_z 0 0 0,
          Vertex_new min_x min_y max_z 0 0 0,
          Vertex_new max_x max_y min_z 0 0 0,
          Vertex_new max_x min_y max_z 0 0 0,
          Vertex_new min_x max_y max_z 0 0 0,
          Vertex_new max_x max_y max_z 0 0 0])"

text \<open>Decimal text of a length, as an f-string prints it.\<close>

fun str_nat :: "nat \<Rightarrow> string" where
  "str_nat n =
     (if n < 10 then [''0123456789'' ! n]
      else str_nat (n div 10) @ [''0123456789'' ! (n mod 10)])"

declare str_nat.simps [simp del]

definition newline :: string where
  "newline = [CHR 0x0A]"

definition ply_header_text :: "nat \<Rightarrow> string" where
  "ply_header_text n =
     ''ply'' @ newline @
     ''format binary_little_endian 1.0'' @ newline @
     ''element vertex '' @ str_nat n @ newline @
     ''property float x'' @ newline @
     ''property float y'' @ newline @
     ''property float z'' @ newline @
     ''property uchar red'' @ newline @
     ''property uchar green'' @ newline @
     ''property uchar blue'' @ newline @
     ''end_header'' @ newline"

text \<open>
  \<^verbatim>\<open>struct.pack('<fffBBB', ...)\<close> writes 15 bytes for a vertex and raises
  \<^verbatim>\<open>struct.error\<close> when a colour is not a byte.
\<close>

definition packable :: "Vertex \<Rightarrow> bool" where
  "packable vertex =
     (0 \<le> v_r vertex \<and> v_r vertex \<le> 255 \<and> 0 \<le> v_g vertex \<and> v_g vertex \<le> 255 \<and>
      0 \<le> v_b vertex \<and> v_b vertex \<le> 255)"

text \<open>A written chunk file: its header text and the vertex records after it, in order.\<close>

record ply_file =
  header_text :: string
  vertex_records :: "Vertex list"

definition write_ply_chunk :: "Vertex list \<Rightarrow> bbox option \<Rightarrow> error + (ply_file \<times> nat)" where
  "write_ply_chunk vertices overall_bbox =
     (let chunk_vertices =
            (case overall_bbox of
               None \<Rightarrow> vertices
             | Some bb \<Rightarrow> vertices @ anchor_points bb);
          header = ply_header_text (length chunk_vertices)
      in if list_all packable chunk_vertices then
           Inr (\<lparr>header_text = header, vertex_records = chunk_vertices\<rparr>,
                length header + 15 * length chunk_vertices)
         else Inl StructError)"

section \<open>\<^verbatim>\<open>chunk_ply_file\<close>\<close>

text \<open>
  The manifest dictionary. Its \<^verbatim>\<open>chunks\<close> entry (\<open>manifest_chunks\<close>) lists the fields of the
  \<^verbatim>\<open>ChunkInfo\<close> objects (\<^verbatim>\<open>file_size\<close> under the key \<^verbatim>\<open>file_size_bytes\<close>).
\<close>

record Manifest =
  original_file :: string
  total_vertices :: nat
  chunk_count :: nat
  overall_bounding_box :: bbox
  manifest_target_chunk_size_mb :: real
  manifest_chunks :: "ChunkInfo list"

text \<open>The format \<^verbatim>\<open>{i:03d}\<close>: decimal, padded with zeros to three characters.\<close>

definition format_03d :: "nat \<Rightarrow> string" where
  "format_03d i =
     (let s = str_nat i
      in if length s = 1 then ''00'' @ s else if length s = 2 then ''0'' @ s else s)"

text \<open>
  The loop of lines 390 to 408 over \<^verbatim>\<open>enumerate(vertex_chunks)\<close>: the chunk
  descriptors in order, and the files written, each under its name.
\<close>

fun write_chunks ::
  "string \<Rightarrow> store \<Rightarrow> bbox \<Rightarrow> (nat \<times> ref list) list \<Rightarrow>
   error + (ChunkInfo list \<times> (string \<times> ply_file) list)" where
  "write_chunks base_name h overall_bbox [] = Inr ([], [])"
| "write_chunks base_name h overall_bbox ((i, chunk_vertices) # rest) =
     (let chunk_filename = base_name @ ''_chunk_'' @ format_03d i @ ''.ply''
      in case write_ply_chunk (map h chunk_vertices) (Some overall_bbox) of
           Inl e \<Rightarrow> Inl e
         | Inr (file, written_size) \<Rightarrow>
             let chunk_bbox = calculate_bounding_box (map h chunk_vertices);
                 chunk_info = \<lparr>filename = chunk_filename,
                               vertex_count = length chunk_vertices,
                               bounding_box = chunk_bbox,
                               priority = i,
                               file_size = written_size\<rparr>
             in case write_chunks base_name h overall_bbox rest of
                  Inl e \<Rightarrow> Inl e
                | Inr (chunk_infos, files) \<Rightarrow>
                    Inr (chunk_info # chunk_infos, (chunk_filename, file) # files))"

text \<open>
  The pipeline from the decoded vertex list on. \<open>vertices\<close> is the list
  \<^verbatim>\<open>read_vertices_from_ply\<close> returned and \<open>h\<close> the store holding its objects;
  \<open>input_name\<close> is \<^verbatim>\<open>os.path.basename(input_path)\<close> and \<open>base_name\<close> that name
  without its extension. The result is the manifest, the chunk files written and the
  store after scaling. Creating the output directory and dumping the manifest as JSON are
  left to the file system and the JSON writer.
\<close>

definition chunk_ply_file ::
  "PLYChunker \<Rightarrow> string \<Rightarrow> string \<Rightarrow> store \<Rightarrow> random_source \<Rightarrow> ref list \<Rightarrow>
   error + (Manifest \<times> (string \<times> ply_file) list \<times> store)" where
  "chunk_ply_file self input_name base_name h rng vertices =
     (let (h, scale_factor) = scale_normalize h vertices;
          overall_bbox = calculate_bounding_box (map h vertices)
      in case chunk_vertices_radial self h rng vertices of
           Inl e \<Rightarrow> Inl e
         | Inr vertex_chunks \<Rightarrow>
             (case write_chunks base_name h overall_bbox (enumerate 0 vertex_chunks) of
                Inl e \<Rightarrow> Inl e
              | Inr (chunk_infos, files) \<Rightarrow>
                  Inr (\<lparr>original_file = input_name,
                        total_vertices = length vertices,
                        chunk_count = length chunk_infos,
                        overall_bounding_box = overall_bbox,
                        manifest_target_chunk_size_mb = target_chunk_size_mb self,
                        manifest_chunks = chunk_infos\<rparr>,
                       files, h)))"

section \<open>\<^verbatim>\<open>analyze_ply_file\<close>\<close>

text \<open>
  The dataclass \<^verbatim>\<open>PLYHeader\<close>; \<^verbatim>\<open>format_type\<close> starts as \<^verbatim>\<open>None\<close>. Its field
  \<^verbatim>\<open>vertex_count\<close> is \<open>header_vertex_count\<close> here, apart from the field of
  \<^verbatim>\<open>ChunkInfo\<close>.
\<close>

record PLYHeader =
  format_type :: "string option"
  header_vertex_count :: int
  properties :: "string list"
  header_size :: nat

text \<open>
  A file opened in mode \<^verbatim>\<open>rb\<close> is the list of the bytes not yet read.
  \<^verbatim>\<open>readline\<close> returns the bytes up to and including the next line feed, or all that
  is left when there is none; at the end of the file it returns the empty bytes object,
  again and again.
\<close>

fun readline :: "char list \<Rightarrow> char list \<times> char list" where
  "readline [] = ([], [])"
| "readline (c # cs) =
     (if c = CHR 0x0A then ([c], cs)
      else case readline cs of (line, rest) \<Rightarrow> (c # line, rest))"

text \<open>
  \<^verbatim>\<open>bytes.decode('ascii')\<close> raises on a byte above 127, that is, a byte whose
  highest bit is set.
\<close>

definition is_ascii :: "char \<Rightarrow> bool" where
  "is_ascii c = (\<not> digit7 c)"

definition decode_ascii :: "char list \<Rightarrow> error + string" where
  "decode_ascii line =
     (if list_all is_ascii line then Inr line else Inl UnicodeDecodeError)"

text \<open>The characters \<^verbatim>\<open>str.strip()\<close> and \<^verbatim>\<open>str.split()\<close> treat as white space, among ASCII.\<close>

definition is_space :: "char \<Rightarrow> bool" where
  "is_space c =
     (c \<in> set [CHR 0x09, CHR 0x0A, CHR 0x0B, CHR 0x0C, CHR 0x0D,
                CHR 0x1C, CHR 0x1D, CHR 0x1E, CHR 0x1F, CHR 0x20])"

definition strip :: "string \<Rightarrow> string" where
  "strip s = rev (dropWhile is_space (rev (dropWhile is_space s)))"

text \<open>
  The \<^verbatim>\<open>while True\<close> loop of lines 63 to 70. It has no exit but the line
  \<^verbatim>\<open>end_header\<close> and a raised exception, so the model is a partial function:
  \<open>None\<close> is a loop that never ends.
\<close>

partial_function (option) read_header ::
  "char list \<Rightarrow> string list \<Rightarrow> nat \<Rightarrow> (error + string list \<times> nat) option" where
  "read_header f header_lines size_so_far =
     (let line = fst (readline f);
          f' = snd (readline f);
          size_so_far = size_so_far + length line
      in case decode_ascii line of
           Inl e \<Rightarrow> Some (Inl e)
         | Inr decoded \<Rightarrow>
             let line_str = strip decoded;
                 header_lines = header_lines @ [line_str]
             in if line_str = ''end_header'' then Some (Inr (header_lines, size_so_far))
                else read_header f' header_lines size_so_far)"

text \<open>\<^verbatim>\<open>str.split()\<close>: the maximal runs of characters that are not white space.\<close>

fun split_from :: "string \<Rightarrow> string \<Rightarrow> string list" where
  "split_from word [] = (if word = [] then [] else [word])"
| "split_from word (c # cs) =
     (if is_space c then (if word = [] then split_from [] cs else word # split_from [] cs)
      else split_from (word @ [c]) cs)"

definition split :: "string \<Rightarrow> string list" where
  "split s = split_from [] s"

definition startswith :: "string \<Rightarrow> string \<Rightarrow> bool" where
  "startswith s p = (take (length p) s = p)"

text \<open>
  The parsing loop of lines 77 to 83. \<open>py_int\<close> is Python's \<^verbatim>\<open>int\<close> on a string,
  \<open>None\<close> where it raises \<^verbatim>\<open>ValueError\<close>; indexing the list of words raises
  \<^verbatim>\<open>IndexError\<close> past its end.
\<close>

fun parse_header_lines ::
  "(string \<Rightarrow> int option) \<Rightarrow> string list \<Rightarrow> string option \<Rightarrow> int \<Rightarrow> string list \<Rightarrow>
   error + (string option \<times> int \<times> string list)" where
  "parse_header_lines py_int [] fmt n_vertices props = Inr (fmt, n_vertices, props)"
| "parse_header_lines py_int (line # rest) fmt n_vertices props =
     (if startswith line ''format'' then
        (if 1 < length (split line)
         then parse_header_lines py_int rest (Some (split line ! 1)) n_vertices props
         else Inl IndexError)
      else if startswith line ''element vertex'' then
        (if 2 < length (split line) then
           (case py_int (split line ! 2) of
              None \<Rightarrow> Inl ValueError
            | Some n \<Rightarrow> parse_header_lines py_int rest fmt n props)
         else Inl IndexError)
      else if startswith line ''property'' then
        parse_header_lines py_int rest fmt n_vertices (props @ [line])
      else parse_header_lines py_int rest fmt n_vertices props)"

definition analyze_ply_file ::
  "(string \<Rightarrow> int option) \<Rightarrow> char list \<Rightarrow> (error + PLYHeader) option" where
  "analyze_ply_file py_int f =
     (case read_header f [] 0 of
        None \<Rightarrow> None
      | Some (Inl e) \<Rightarrow> Some (Inl e)
      | Some (Inr (header_lines, size_read)) \<Rightarrow>
          (case parse_header_lines py_int header_lines None 0 [] of
             Inl e \<Rightarrow> Some (Inl e)
           | Inr (fmt, n, props) \<Rightarrow>
               Some (Inr \<lparr>format_type = fmt, header_vertex_count = n,
                          properties = props, header_size = size_read\<rparr>)))"

section \<open>One pass: what the scan selects and what the removal leaves\<close>

lemma scan_pass_selection:
  "scan_pass vpc max_d cn n rng k i rest cc tr = Inr (cc', tr', k') \<Longrightarrow>
   \<exists>sel. sorted_wrt (<) sel \<and> (\<forall>j\<in>set sel. j < length rest) \<and>
     tr' = tr @ map ((+) i) sel \<and> cc' = cc @ map (\<lambda>j. entry_vertex (rest ! j)) sel"
proof (induction rest arbitrary: k i cc tr)
  case Nil
  then show ?case by simp
next
  case (Cons e rest)
  obtain d oi v where e: "e = (d, oi, v)" by (cases e) auto
  let ?p = "(if real n \<le> real_of_int vpc * (15 / 10) then 1
             else min 1 (1 - d / max_d * (8 / 10) + min (3 / 10) (real (cn - 1) * (1 / 10))))"
  from Cons.prems e have nz: "max_d \<noteq> 0" by (auto split: if_splits)
  show ?case
  proof (cases "rng k < ?p")
    case sel: True
    show ?thesis
    proof (cases "vpc \<le> int (length (cc @ [v]))")
      case True
      with Cons.prems e nz sel have "cc' = cc @ [v]" "tr' = tr @ [i]"
        by (auto simp: Let_def split: if_splits)
      then have "sorted_wrt (<) [0::nat] \<and> (\<forall>j\<in>set [0::nat]. j < length (e # rest)) \<and>
          tr' = tr @ map ((+) i) [0] \<and> cc' = cc @ map (\<lambda>j. entry_vertex ((e # rest) ! j)) [0]"
        by (simp add: e entry_vertex_def)
      then show ?thesis by blast
    next
      case False
      with Cons.prems e nz sel
      have "scan_pass vpc max_d cn n rng (Suc k) (Suc i) rest (cc @ [v]) (tr @ [i]) = Inr (cc', tr', k')"
        by (auto simp: Let_def split: if_splits)
      from Cons.IH [OF this] obtain sel where s: "sorted_wrt (<) sel" "\<forall>j\<in>set sel. j < length rest"
        "tr' = (tr @ [i]) @ map ((+) (Suc i)) sel" "cc' = (cc @ [v]) @ map (\<lambda>j. entry_vertex (rest ! j)) sel"
        by blast
      have "sorted_wrt (<) (0 # map Suc sel) \<and> (\<forall>j\<in>set (0 # map Suc sel). j < length (e # rest)) \<and>
          tr' = tr @ map ((+) i) (0 # map Suc sel) \<and>
          cc' = cc @ map (\<lambda>j. entry_vertex ((e # rest) ! j)) (0 # map Suc sel)"
        using s by (auto simp: e entry_vertex_def sorted_wrt_map comp_def)
      then show ?thesis by blast
    qed
  next
    case False
    with Cons.prems e nz
    have "scan_pass vpc max_d cn n rng (Suc k) (Suc i) rest cc tr = Inr (cc', tr', k')"
      by (auto simp: Let_def split: if_splits)
    from Cons.IH [OF this] obtain sel where s: "sorted_wrt (<) sel" "\<forall>j\<in>set sel. j < length rest"
        "tr' = tr @ map ((+) (Suc i)) sel" "cc' = cc @ map (\<lambda>j. entry_vertex (rest ! j)) sel"
      by blast
    have "sorted_wrt (<) (map Suc sel) \<and> (\<forall>j\<in>set (map Suc sel). j < length (e # rest)) \<and>
          tr' = tr @ map ((+) i) (map Suc sel) \<and>
          cc' = cc @ map (\<lambda>j. entry_vertex ((e # rest) ! j)) (map Suc sel)"
      using s by (auto simp: sorted_wrt_map comp_def)
    then show ?thesis by blast
  qed
qed

lemma scan_pass_cap:
  "scan_pass vpc max_d cn n rng k i rest cc tr = Inr (cc', tr', k') \<Longrightarrow>
   int (length cc) < vpc \<Longrightarrow> int (length cc') \<le> vpc"
proof (induction rest arbitrary: k i cc tr)
  case Nil
  then show ?case by simp
next
  case (Cons e rest)
  obtain d oi v where e: "e = (d, oi, v)" by (cases e) auto
  from Cons.prems e show ?case
    by (auto simp: Let_def split: if_splits dest!: Cons.IH)
qed

lemma scan_pass_total:
  "max_d \<noteq> 0 \<Longrightarrow> \<exists>r. scan_pass vpc max_d cn n rng k i rest cc tr = Inr r"
proof (induction rest arbitrary: k i cc tr)
  case Nil
  then show ?case by simp
next
  case (Cons e rest)
  obtain d oi v where e: "e = (d, oi, v)" by (cases e) auto
  from Cons show ?case by (simp add: e Let_def)
qed

lemma pop_keeps:
  "pop j xs = Inr ys \<Longrightarrow> a < j \<Longrightarrow> ys ! a = xs ! a"
  by (auto simp: pop_def nth_append split: if_splits)

lemma pop_mset:
  "pop j xs = Inr ys \<Longrightarrow> mset xs = add_mset (xs ! j) (mset ys)"
proof -
  assume "pop j xs = Inr ys"
  then have j: "j < length xs" and ys: "ys = take j xs @ drop (Suc j) xs"
    by (auto simp: pop_def split: if_splits)
  from j have "xs = take j xs @ xs ! j # drop (Suc j) xs"
    by (simp add: id_take_nth_drop)
  then have "mset xs = mset (take j xs @ xs ! j # drop (Suc j) xs)" by simp
  then show ?thesis by (simp add: ys)
qed

lemma remove_selected_sorted:
  "sorted_wrt (<) sel \<Longrightarrow> \<forall>j\<in>set sel. j < length xs \<Longrightarrow>
   \<exists>ys. remove_selected (rev sel) xs = Inr ys \<and>
        mset xs = mset (map ((!) xs) sel) + mset ys"
proof (induction sel arbitrary: xs rule: rev_induct)
  case Nil
  then show ?case by simp
next
  case (snoc j sel)
  from snoc.prems have j: "j < length xs" and lt: "\<forall>a\<in>set sel. a < j"
    and srt: "sorted_wrt (<) sel"
    by (auto simp: sorted_wrt_append)
  define zs where "zs = take j xs @ drop (Suc j) xs"
  from j have p: "pop j xs = Inr zs" by (simp add: pop_def zs_def)
  from j lt have "\<forall>a\<in>set sel. a < length zs" by (auto simp: zs_def)
  from snoc.IH [OF srt this] obtain ys where
    r: "remove_selected (rev sel) zs = Inr ys" and m: "mset zs = mset (map ((!) zs) sel) + mset ys"
    by blast
  have "map ((!) zs) sel = map ((!) xs) sel"
    using lt pop_keeps [OF p] by simp
  with m pop_mset [OF p] have "mset xs = mset (map ((!) xs) (sel @ [j])) + mset ys"
    by simp
  moreover have "remove_selected (rev (sel @ [j])) xs = Inr ys"
    using p r by simp
  ultimately show ?case by blast
qed

lemma pass_selection:
  assumes "scan_pass vpc max_d cn n rng k 0 remaining [] [] = Inr (cc, tr, k')"
  shows "\<exists>rem'. remove_selected (rev tr) remaining = Inr rem' \<and>
           mset (map entry_vertex remaining) = mset cc + mset (map entry_vertex rem') \<and>
           length cc = length tr"
proof -
  from scan_pass_selection [OF assms] obtain sel where
    s: "sorted_wrt (<) sel" "\<forall>j\<in>set sel. j < length remaining"
    and tr: "tr = map ((+) 0) sel" and cc: "cc = map (\<lambda>j. entry_vertex (remaining ! j)) sel"
    by auto
  have "map ((+) (0::nat)) sel = sel" by (rule map_idI) simp
  with tr have tr': "tr = sel" by simp
  from remove_selected_sorted [OF s] obtain ys where
    r: "remove_selected (rev sel) remaining = Inr ys"
    and m: "mset remaining = mset (map ((!) remaining) sel) + mset ys"
    by blast
  from m have "image_mset entry_vertex (mset remaining) =
      image_mset entry_vertex (mset (map ((!) remaining) sel) + mset ys)"
    by simp
  then have "mset (map entry_vertex remaining) = mset cc + mset (map entry_vertex ys)"
    by (simp add: cc multiset.map_comp comp_def)
  with r tr' cc show ?thesis by auto
qed


lemma pass_shrinks:
  assumes "length rem' + length tr = length remaining" and "remaining \<noteq> []"
    and "\<not> (tr = [] \<and> rem' \<noteq> [])"
  shows "length rem' < length remaining"
proof -
  from assms(3) have "0 < length tr \<or> length rem' = 0" by auto
  moreover from assms(2) have "0 < length remaining" by simp
  ultimately show ?thesis using assms(1) by linarith
qed

lemma radial_loop_step:
  assumes "remaining \<noteq> []"
    and "scan_pass vpc max_d (Suc cn) (length remaining) rng k 0 remaining [] [] = Inr (cc, tr, k')"
    and "remove_selected (rev tr) remaining = Inr rem'"
  shows "radial_loop vpc max_d rng k cn chunks remaining =
     (if tr = [] \<and> rem' \<noteq> [] then
        Inr ((if cc \<noteq> [] then chunks @ [cc] else chunks) @ [map entry_vertex rem'], True, k')
      else radial_loop vpc max_d rng k' (Suc cn) (if cc \<noteq> [] then chunks @ [cc] else chunks) rem')"
  using assms by (subst radial_loop.simps) (simp add: Let_def)

lemma radial_loop_partition:
  "radial_loop vpc max_d rng k cn chunks remaining = Inr (chunks', forced, k') \<Longrightarrow>
   mset (concat chunks') = mset (concat chunks) + mset (map entry_vertex remaining)"
proof (induction "length remaining" arbitrary: k cn chunks remaining rule: less_induct)
  case less
  show ?case
  proof (cases "remaining = []")
    case True
    with less.prems show ?thesis by (simp add: radial_loop.simps)
  next
    case ne: False
    from less.prems ne obtain cc tr k1 where
      sc: "scan_pass vpc max_d (Suc cn) (length remaining) rng k 0 remaining [] [] = Inr (cc, tr, k1)"
      by (subst (asm) radial_loop.simps) (auto split: sum.splits)
    from pass_selection [OF sc] obtain rem' where
      rs: "remove_selected (rev tr) remaining = Inr rem'"
      and m: "mset (map entry_vertex remaining) = mset cc + mset (map entry_vertex rem')"
      and l: "length cc = length tr"
      by blast
    note step = radial_loop_step [OF ne sc rs, of chunks]
    show ?thesis
    proof (cases "tr = [] \<and> rem' \<noteq> []")
      case True
      with step less.prems have "chunks' = (if cc \<noteq> [] then chunks @ [cc] else chunks) @ [map entry_vertex rem']"
        by simp
      with m show ?thesis by simp
    next
      case False
      with step less.prems have
        rec: "radial_loop vpc max_d rng k1 (Suc cn) (if cc \<noteq> [] then chunks @ [cc] else chunks) rem' =
          Inr (chunks', forced, k')" by simp
      have "length rem' < length remaining"
        using remove_selected_length [OF rs] ne False by (intro pass_shrinks [of _ tr]) simp_all
      from less.hyps [OF this rec] m show ?thesis by simp
    qed
  qed
qed

section \<open>Invariants of the pass loop\<close>

lemma radial_loop_nonempty:
  "radial_loop vpc max_d rng k cn chunks remaining = Inr (chunks', forced, k') \<Longrightarrow>
   list_all (\<lambda>c. c \<noteq> []) chunks \<Longrightarrow> list_all (\<lambda>c. c \<noteq> []) chunks'"
proof (induction "length remaining" arbitrary: k cn chunks remaining rule: less_induct)
  case less
  show ?case
  proof (cases "remaining = []")
    case True
    with less.prems show ?thesis by (simp add: radial_loop.simps)
  next
    case ne: False
    from less.prems ne obtain cc tr k1 where
      sc: "scan_pass vpc max_d (Suc cn) (length remaining) rng k 0 remaining [] [] = Inr (cc, tr, k1)"
      by (subst (asm) radial_loop.simps) (auto split: sum.splits)
    from pass_selection [OF sc] obtain rem' where
      rs: "remove_selected (rev tr) remaining = Inr rem'"
      by blast
    note step = radial_loop_step [OF ne sc rs, of chunks]
    let ?chunks1 = "if cc \<noteq> [] then chunks @ [cc] else chunks"
    from less.prems(2) have c1: "list_all (\<lambda>c. c \<noteq> []) ?chunks1" by simp
    show ?thesis
    proof (cases "tr = [] \<and> rem' \<noteq> []")
      case True
      with step less.prems have "chunks' = ?chunks1 @ [map entry_vertex rem']"
        by simp
      with c1 True show ?thesis by simp
    next
      case False
      with step less.prems have
        rec: "radial_loop vpc max_d rng k1 (Suc cn) ?chunks1 rem' = Inr (chunks', forced, k')"
        by simp
      have "length rem' < length remaining"
        using remove_selected_length [OF rs] ne False by (intro pass_shrinks [of _ tr]) simp_all
      from less.hyps [OF this rec c1] show ?thesis .
    qed
  qed
qed

lemma radial_loop_cap:
  "radial_loop vpc max_d rng k cn chunks remaining = Inr (chunks', forced, k') \<Longrightarrow>
   1 \<le> vpc \<Longrightarrow> list_all (\<lambda>c. int (length c) \<le> vpc) chunks \<Longrightarrow>
   list_all (\<lambda>c. int (length c) \<le> vpc) (if forced then butlast chunks' else chunks')"
proof (induction "length remaining" arbitrary: k cn chunks remaining rule: less_induct)
  case less
  show ?case
  proof (cases "remaining = []")
    case True
    with less.prems show ?thesis by (simp add: radial_loop.simps)
  next
    case ne: False
    from less.prems ne obtain cc tr k1 where
      sc: "scan_pass vpc max_d (Suc cn) (length remaining) rng k 0 remaining [] [] = Inr (cc, tr, k1)"
      by (subst (asm) radial_loop.simps) (auto split: sum.splits)
    from pass_selection [OF sc] obtain rem' where
      rs: "remove_selected (rev tr) remaining = Inr rem'"
      by blast
    note step = radial_loop_step [OF ne sc rs, of chunks]
    let ?chunks1 = "if cc \<noteq> [] then chunks @ [cc] else chunks"
    from scan_pass_cap [OF sc] less.prems(2) have "int (length cc) \<le> vpc" by simp
    with less.prems(3) have c1: "list_all (\<lambda>c. int (length c) \<le> vpc) ?chunks1" by simp
    show ?thesis
    proof (cases "tr = [] \<and> rem' \<noteq> []")
      case True
      with step less.prems have "chunks' = ?chunks1 @ [map entry_vertex rem']" "forced"
        by simp_all
      with c1 show ?thesis by (simp add: butlast_append)
    next
      case False
      with step less.prems have
        rec: "radial_loop vpc max_d rng k1 (Suc cn) ?chunks1 rem' = Inr (chunks', forced, k')"
        by simp
      have "length rem' < length remaining"
        using remove_selected_length [OF rs] ne False by (intro pass_shrinks [of _ tr]) simp_all
      from less.hyps [OF this rec less.prems(2) c1] show ?thesis .
    qed
  qed
qed

lemma radial_loop_total:
  "max_d \<noteq> 0 \<Longrightarrow> \<exists>res. radial_loop vpc max_d rng k cn chunks remaining = Inr res"
proof (induction "length remaining" arbitrary: k cn chunks remaining rule: less_induct)
  case less
  show ?case
  proof (cases "remaining = []")
    case True
    then show ?thesis by (auto simp: radial_loop.simps)
  next
    case ne: False
    from scan_pass_total [OF less.prems] obtain cc tr k1 where
      sc: "scan_pass vpc max_d (Suc cn) (length remaining) rng k 0 remaining [] [] = Inr (cc, tr, k1)"
      by (metis prod_cases3)
    from pass_selection [OF sc] obtain rem' where
      rs: "remove_selected (rev tr) remaining = Inr rem'"
      by blast
    note step = radial_loop_step [OF ne sc rs, of chunks]
    show ?thesis
    proof (cases "tr = [] \<and> rem' \<noteq> []")
      case True
      with step show ?thesis by auto
    next
      case False
      have "length rem' < length remaining"
        using remove_selected_length [OF rs] ne False by (intro pass_shrinks [of _ tr]) simp_all
      from less.hyps [OF this less.prems] step False show ?thesis by simp
    qed
  qed
qed

lemma radial_loop_zero_distance:
  "remaining \<noteq> [] \<Longrightarrow> radial_loop vpc 0 rng k cn chunks remaining = Inl ZeroDivisionError"
  by (cases remaining) (auto simp: radial_loop.simps)

lemma entry_vertex_distances [simp]:
  "map entry_vertex (vertex_distances h vertices) = vertices"
  by (simp add: vertex_distances_def entry_vertex_def comp_def case_prod_unfold
        enumerate_eq_zip map_snd_zip [unfolded snd_def])

lemma sorted_entries_mset:
  "mset (map entry_vertex (sort_key fst (vertex_distances h vertices))) = mset vertices"
proof -
  have "mset (map entry_vertex (sort_key fst (vertex_distances h vertices))) =
        image_mset entry_vertex (mset (sort_key fst (vertex_distances h vertices)))" by simp
  also have "\<dots> = image_mset entry_vertex (mset (vertex_distances h vertices))" by simp
  also have "\<dots> = mset (map entry_vertex (vertex_distances h vertices))"
    by (simp only: mset_map)
  also have "\<dots> = mset vertices" by (simp only: entry_vertex_distances)
  finally show ?thesis .
qed

lemma max_distance_ge: "0 \<le> max_distance h vertices"
proof -
  have "m \<le> fold (\<lambda>vertex m. max m (origin_distance (h vertex))) vertices m" for m
    by (induction vertices arbitrary: m) (auto intro: order_trans [OF max.cobounded1])
  then show ?thesis unfolding max_distance_def .
qed

lemma max_distance_zero_iff:
  "max_distance h vertices = 0 \<longleftrightarrow> list_all (\<lambda>vertex. origin_distance (h vertex) = 0) vertices"
proof -
  have nn: "0 \<le> origin_distance v" for v by (simp add: origin_distance_def)
  have "0 \<le> m \<Longrightarrow> fold (\<lambda>vertex m. max m (origin_distance (h vertex))) vertices m = 0 \<longleftrightarrow>
      m = 0 \<and> list_all (\<lambda>vertex. origin_distance (h vertex) = 0) vertices" for m
  proof (induction vertices arbitrary: m)
    case Nil
    then show ?case by simp
  next
    case (Cons v vs)
    have "0 \<le> max m (origin_distance (h v))" using Cons.prems by simp
    from Cons.IH [OF this] Cons.prems nn [of "h v"] show ?case
      by (auto simp: max_def split: if_splits)
  qed
  from this [of 0] show ?thesis by (simp add: max_distance_def)
qed

section \<open>Concrete runs\<close>

lemmas radial_eval =
  chunk_vertices_radial_log_def radial_loop.simps vertices_per_chunk_def PLYChunker_init_def
  py_int_of_float_def
  max_distance_def vertex_distances_def origin_distance_def Vertex_new_def enumerate_eq_zip
  pop_def entry_vertex_def upt_rec

text \<open>
  The chunkers of the runs below are built by \<^verbatim>\<open>PLYChunker(40 / 1048576)\<close> and
  \<^verbatim>\<open>PLYChunker(20 / 1048576)\<close>: 40 and 20 target bytes, so two vertices and one
  vertex per chunk.
\<close>

text \<open>Three distinct vertices with equal coordinates, two per chunk, every draw 0.\<close>

lemma run_shared_coordinates:
  "chunk_vertices_radial_log (PLYChunker_init (40 / 1048576))
     (\<lambda>_. Vertex_new 1 0 0 255 255 255) (\<lambda>_. 0) [0, 1, 2] = Inr ([[0, 1], [2]], False)"
  by (simp add: radial_eval)

text \<open>Four vertices, one per chunk, every draw 9/10: the second pass selects nothing.\<close>

lemma run_stall:
  "chunk_vertices_radial_log (PLYChunker_init (20 / 1048576))
     ((\<lambda>_. Vertex_new 1 0 0 255 255 255)
        (1 := Vertex_new 2 0 0 255 255 255, 2 := Vertex_new 0 0 0 255 255 255))
     (\<lambda>_. 9 / 10) [0, 1, 2, 3] = Inr ([[2], [0, 3, 1]], True)"
  by (simp add: radial_eval)

section \<open>When the method returns\<close>

text \<open>
  The loop itself always ends (\<^const>\<open>radial_loop\<close> is total). The method returns
  normally exactly when some vertex is off the origin or the list is empty; otherwise the
  first probability computed divides by a zero \<^verbatim>\<open>max_distance\<close>.
\<close>

lemma chunk_vertices_radial_returns:
  assumes "max_distance h vertices \<noteq> 0"
  shows "\<exists>chunks. chunk_vertices_radial self h rng vertices = Inr chunks"
proof -
  from radial_loop_total [OF assms] obtain chunks forced k where
    "radial_loop (vertices_per_chunk self) (max_distance h vertices) rng 0 0 []
       (sort_key fst (vertex_distances h vertices)) = Inr (chunks, forced, k)"
    by (metis prod_cases3)
  then show ?thesis
    by (simp add: chunk_vertices_radial_def chunk_vertices_radial_log_def)
qed

lemma chunk_vertices_radial_raises:
  assumes "vertices \<noteq> []" and "max_distance h vertices = 0"
  shows "chunk_vertices_radial self h rng vertices = Inl ZeroDivisionError"
proof -
  have "length (sort_key fst (vertex_distances h vertices)) = length vertices"
    by (simp add: vertex_distances_def)
  with assms(1) have "sort_key fst (vertex_distances h vertices) \<noteq> []"
    by (metis length_0_conv)
  from radial_loop_zero_distance [OF this] assms(2) show ?thesis
    by (simp add: chunk_vertices_radial_def chunk_vertices_radial_log_def)
qed

section \<open>The partition the loop returns\<close>

lemma returned_groups_mset:
  assumes "chunk_vertices_radial self h rng vertices = Inr chunks"
  shows "mset (concat chunks) = mset vertices"
proof -
  from assms obtain forced k where
    "radial_loop (vertices_per_chunk self) (max_distance h vertices) rng 0 0 []
       (sort_key fst (vertex_distances h vertices)) = Inr (chunks, forced, k)"
    by (auto simp: chunk_vertices_radial_def chunk_vertices_radial_log_def split: sum.splits)
  from radial_loop_partition [OF this] show ?thesis
    by (simp only: sorted_entries_mset) simp
qed

text \<open>
  C1: whenever \<^verbatim>\<open>chunk_vertices_radial\<close> returns its groups, their multiset union is
  the input vertex list, each object exactly once; and it does return them whenever some
  vertex is off the origin. The groups hold object references, so membership is by
  identity: the run \<open>run_shared_coordinates\<close> partitions three distinct objects with
  equal coordinates.
\<close>

theorem chunk_vertices_radial_partition:
  "(max_distance h vertices \<noteq> 0 \<longrightarrow>
      (\<exists>chunks. chunk_vertices_radial self h rng vertices = Inr chunks)) \<and>
   (\<forall>chunks. chunk_vertices_radial self h rng vertices = Inr chunks \<longrightarrow>
      mset (concat chunks) = mset vertices)"
  using chunk_vertices_radial_returns [of h vertices self rng] returned_groups_mset
  by blast

theorem chunk_vertices_radial_partition_witness:
  "max_distance (\<lambda>_. Vertex_new 1 0 0 255 255 255) [0, 1, 2] \<noteq> 0 \<and>
   chunk_vertices_radial (PLYChunker_init (40 / 1048576))
     (\<lambda>_. Vertex_new 1 0 0 255 255 255) (\<lambda>_. 0) [0, 1, 2] = Inr [[0, 1], [2]] \<and>
   mset (concat [[0, 1], [2]]) = mset [0, 1, 2 :: ref]"
proof -
  have run: "chunk_vertices_radial (PLYChunker_init (40 / 1048576))
     (\<lambda>_. Vertex_new 1 0 0 255 255 255) (\<lambda>_. 0) [0, 1, 2] = Inr [[0, 1], [2]]"
    by (simp only: chunk_vertices_radial_def run_shared_coordinates sum.case prod.case)
  have off: "max_distance (\<lambda>_. Vertex_new 1 0 0 255 255 255) [0, 1, 2] \<noteq> 0"
    by (simp add: max_distance_def origin_distance_def Vertex_new_def)
  from chunk_vertices_radial_partition
    [of "\<lambda>_. Vertex_new 1 0 0 255 255 255" "[0, 1, 2]" "PLYChunker_init (40 / 1048576)" "\<lambda>_. 0"]
    run off
  show ?thesis by simp
qed

lemma returned_groups_nonempty:
  assumes "chunk_vertices_radial self h rng vertices = Inr chunks"
  shows "list_all (\<lambda>chunk. 1 \<le> length chunk) chunks"
proof -
  from assms obtain forced k where
    "radial_loop (vertices_per_chunk self) (max_distance h vertices) rng 0 0 []
       (sort_key fst (vertex_distances h vertices)) = Inr (chunks, forced, k)"
    by (auto simp: chunk_vertices_radial_def chunk_vertices_radial_log_def split: sum.splits)
  from radial_loop_nonempty [OF this] have "list_all (\<lambda>c. c \<noteq> []) chunks" by simp
  then show ?thesis
    by (simp add: list_all_iff Suc_le_eq)
qed

text \<open>
  C4: every group of the returned sequence holds at least one vertex, whatever the input
  and the draws.
\<close>

theorem chunk_vertices_radial_nonempty:
  assumes "chunk_vertices_radial self h rng vertices = Inr chunks"
  shows "list_all (\<lambda>chunk. 1 \<le> length chunk) chunks"
  using assms by (rule returned_groups_nonempty)

theorem chunk_vertices_radial_nonempty_witness:
  "chunk_vertices_radial (PLYChunker_init (20 / 1048576))
     ((\<lambda>_. Vertex_new 1 0 0 255 255 255)
        (1 := Vertex_new 2 0 0 255 255 255, 2 := Vertex_new 0 0 0 255 255 255))
     (\<lambda>_. 9 / 10) [0, 1, 2, 3] = Inr [[2], [0, 3, 1]] \<and>
   list_all (\<lambda>chunk. 1 \<le> length chunk) [[2], [0, 3, 1 :: ref]]"
proof -
  have run: "chunk_vertices_radial (PLYChunker_init (20 / 1048576))
     ((\<lambda>_. Vertex_new 1 0 0 255 255 255)
        (1 := Vertex_new 2 0 0 255 255 255, 2 := Vertex_new 0 0 0 255 255 255))
     (\<lambda>_. 9 / 10) [0, 1, 2, 3] = Inr [[2], [0, 3, 1]]"
    by (simp only: chunk_vertices_radial_def run_stall sum.case prod.case)
  from chunk_vertices_radial_nonempty [OF run] run show ?thesis by simp
qed

text \<open>
  C10: every group appended by a pass's scan holds at most
  \<^verbatim>\<open>vertices_per_chunk = max(1, target_chunk_size_bytes // 20)\<close> vertices, flush passes
  included; only the forced final chunk of a stalled pass, which is the last group when it
  exists, is outside the cap.
\<close>

theorem scanned_chunks_within_vertices_per_chunk:
  assumes "chunk_vertices_radial_log self h rng vertices = Inr (chunks, forced)"
  shows "vertices_per_chunk self = max 1 (target_chunk_size_bytes self div 20) \<and>
         list_all (\<lambda>chunk. int (length chunk) \<le> vertices_per_chunk self)
           (if forced then butlast chunks else chunks)"
proof -
  from assms obtain k where
    "radial_loop (vertices_per_chunk self) (max_distance h vertices) rng 0 0 []
       (sort_key fst (vertex_distances h vertices)) = Inr (chunks, forced, k)"
    by (auto simp: chunk_vertices_radial_log_def split: sum.splits)
  moreover have "1 \<le> vertices_per_chunk self" by (simp add: vertices_per_chunk_def)
  ultimately have "list_all (\<lambda>c. int (length c) \<le> vertices_per_chunk self)
      (if forced then butlast chunks else chunks)"
    by (rule radial_loop_cap) simp
  then show ?thesis by (simp add: vertices_per_chunk_def)
qed

theorem scanned_chunks_within_vertices_per_chunk_witness:
  "chunk_vertices_radial_log (PLYChunker_init (20 / 1048576))
     ((\<lambda>_. Vertex_new 1 0 0 255 255 255)
        (1 := Vertex_new 2 0 0 255 255 255, 2 := Vertex_new 0 0 0 255 255 255))
     (\<lambda>_. 9 / 10) [0, 1, 2, 3] = Inr ([[2], [0, 3, 1]], True) \<and>
   vertices_per_chunk (PLYChunker_init (20 / 1048576)) = 1 \<and>
   list_all (\<lambda>chunk. int (length chunk) \<le> 1) (butlast [[2], [0, 3, 1 :: ref]])"
  using scanned_chunks_within_vertices_per_chunk [OF run_stall] run_stall
  by (simp add: vertices_per_chunk_def PLYChunker_init_def py_int_of_float_def)

section \<open>The division by a zero \<^verbatim>\<open>max_distance\<close>\<close>

text \<open>
  C2: the method does not return normally on every finite input. On a single vertex at
  the origin \<^verbatim>\<open>max_distance\<close> is 0 and line 207 raises \<^verbatim>\<open>ZeroDivisionError\<close>,
  for every chunk size and every draw.
\<close>

theorem chunk_vertices_radial_origin_raises:
  "chunk_vertices_radial self (\<lambda>_. Vertex_new 0 0 0 255 255 255) rng [0] = Inl ZeroDivisionError"
  by (rule chunk_vertices_radial_raises) (simp_all add: max_distance_def origin_distance_def Vertex_new_def)

section \<open>Flush passes\<close>

text \<open>
  In a pass with \<^verbatim>\<open>len(remaining_vertices) <= vertices_per_chunk * 1.5\<close> the selection
  probability is 1.0, above every draw, so the scan selects each vertex it reaches; the
  test of line 223 still ends the scan once the group is full.
\<close>

lemma flush_scan:
  assumes "draws_in_unit rng" and "max_d \<noteq> 0"
    and "real n \<le> real_of_int vpc * (15 / 10)"
  shows "int (length cc) < vpc \<Longrightarrow>
    scan_pass vpc max_d cn n rng k i rest cc tr =
      Inr (cc @ map entry_vertex (take (nat vpc - length cc) rest),
           tr @ [i ..< i + min (nat vpc - length cc) (length rest)],
           k + min (nat vpc - length cc) (length rest))"
proof (induction rest arbitrary: k i cc tr)
  case Nil
  then show ?case by simp
next
  case (Cons e rest)
  obtain d oi v where e: "e = (d, oi, v)" by (cases e) auto
  from assms(1) have draw: "rng k < 1" by (simp add: draws_in_unit_def)
  from Cons.prems obtain m where m: "nat vpc - length cc = Suc m"
    by (cases "nat vpc - length cc") auto
  show ?case
  proof (cases "vpc \<le> int (length (cc @ [v]))")
    case True
    with m have "m = 0" by auto
    with True m draw assms(2,3) show ?thesis
      by (simp add: e entry_vertex_def)
  next
    case False
    then have lt: "int (length (cc @ [v])) < vpc" by simp
    from m have m': "nat vpc - length (cc @ [v]) = m" by simp
    from False draw assms(2,3)
    have step: "scan_pass vpc max_d cn n rng k i (e # rest) cc tr =
          scan_pass vpc max_d cn n rng (Suc k) (Suc i) rest (cc @ [v]) (tr @ [i])"
      by (simp add: e)
    note r = Cons.IH [OF lt, of "Suc k" "Suc i" "tr @ [i]", unfolded m']
    have u: "[i ..< i + min (Suc m) (length (e # rest))] =
             i # [Suc i ..< Suc i + min m (length rest)]"
    proof -
      have "i + min (Suc m) (length (e # rest)) = Suc (i + min m (length rest))" by simp
      moreover have "[i ..< Suc (i + min m (length rest))] =
          i # [Suc i ..< Suc (i + min m (length rest))]"
        by (rule upt_conv_Cons) simp
      ultimately show ?thesis by (simp only: add_Suc)
    qed
    have t: "take (Suc m) (e # rest) = e # take m rest" by simp
    show ?thesis
      unfolding m step r u t by (simp add: e entry_vertex_def)
  qed
qed

text \<open>
  C3, as amended: in a flush pass every scanned vertex is selected whatever the draw, and
  the group is the first \<open>min vertices_per_chunk (length remaining)\<close> remaining vertices
  in scan order (all of them exactly when at most \<^verbatim>\<open>vertices_per_chunk\<close> remain). The
  case \<^verbatim>\<open>max_distance = 0\<close>, where the pass raises, is left out.
\<close>

theorem flush_pass_selects_up_to_cap:
  assumes "draws_in_unit rng" and "max_d \<noteq> 0" and "1 \<le> vpc"
    and "real (length remaining) \<le> real_of_int vpc * (15 / 10)"
  shows "scan_pass vpc max_d chunk_num (length remaining) rng k 0 remaining [] [] =
      Inr (map entry_vertex (take (nat vpc) remaining),
           [0 ..< min (nat vpc) (length remaining)],
           k + min (nat vpc) (length remaining))"
  using flush_scan [OF assms(1,2,4), of "[]" chunk_num k 0 remaining "[]"] assms(3)
  by simp

theorem flush_pass_selects_up_to_cap_witness:
  "draws_in_unit (\<lambda>_. 1 / 2) \<and> (1::real) \<noteq> 0 \<and> (1::int) \<le> 2 \<and>
   real (length [(1, 0, 0), (1, 1, 1), (1, 2, 2 :: ref) :: entry]) \<le> real_of_int 2 * (15 / 10) \<and>
   scan_pass 2 1 1 (length [(1, 0, 0), (1, 1, 1), (1, 2, 2 :: ref) :: entry]) (\<lambda>_. 1 / 2) 0 0
     [(1, 0, 0), (1, 1, 1), (1, 2, 2)] [] [] = Inr ([0, 1], [0, 1], 2)"
proof -
  have d: "draws_in_unit (\<lambda>_. 1 / 2)" by (simp add: draws_in_unit_def)
  have l: "real (length [(1, 0, 0), (1, 1, 1), (1, 2, 2 :: ref) :: entry]) \<le> real_of_int 2 * (15 / 10)"
    by simp
  have z: "(1::real) \<noteq> 0" and v: "(1::int) \<le> 2" by simp_all
  from flush_pass_selects_up_to_cap [OF d z v l, of 1 0] d l show ?thesis
    by (simp add: entry_vertex_def upt_rec)
qed

text \<open>
  C3 as stated fails: with \<^verbatim>\<open>vertices_per_chunk = 2\<close> and three vertices remaining
  (3 is at most 1.5 times 2) the first pass of the run \<open>run_shared_coordinates\<close> selects
  two vertices and leaves the third for the next pass.
\<close>

theorem flush_pass_counterexample:
  "vertices_per_chunk (PLYChunker_init (40 / 1048576)) = 2 \<and>
   max_distance (\<lambda>_. Vertex_new 1 0 0 255 255 255) [0, 1, 2] = 1 \<and>
   sort_key fst (vertex_distances (\<lambda>_. Vertex_new 1 0 0 255 255 255) [0, 1, 2]) =
     [(1, 0, 0), (1, 1, 1), (1, 2, 2)] \<and>
   real (length [(1, 0, 0), (1, 1, 1), (1, 2, 2 :: ref) :: entry]) \<le> real_of_int 2 * (15 / 10) \<and>
   scan_pass 2 1 1 (length [(1, 0, 0), (1, 1, 1), (1, 2, 2 :: ref) :: entry]) (\<lambda>_. 0) 0 0
     [(1, 0, 0), (1, 1, 1), (1, 2, 2)] [] [] = Inr ([0, 1], [0, 1], 2) \<and>
   mset [0, 1 :: ref] \<noteq> mset (map entry_vertex [(1, 0, 0), (1, 1, 1), (1, 2, 2)])"
  by (simp add: vertices_per_chunk_def PLYChunker_init_def py_int_of_float_def entry_vertex_def
        max_distance_def vertex_distances_def origin_distance_def Vertex_new_def
        enumerate_eq_zip upt_rec)

section \<open>Bounding boxes as minima and maxima\<close>

lemma fold_min_Min:
  "fold (\<lambda>v m. min m (f v)) vs (a::real) = Min (insert a (f ` set vs))"
proof (induction vs arbitrary: a)
  case Nil
  then show ?case by simp
next
  case (Cons v vs)
  have "Min (insert (min a (f v)) (f ` set vs)) = Min (insert a (insert (f v) (f ` set vs)))"
    by (cases "vs = []") (simp_all add: min.assoc)
  with Cons.IH [of "min a (f v)"] show ?case by simp
qed

lemma fold_max_Max:
  "fold (\<lambda>v m. max m (f v)) vs (a::real) = Max (insert a (f ` set vs))"
proof (induction vs arbitrary: a)
  case Nil
  then show ?case by simp
next
  case (Cons v vs)
  have "Max (insert (max a (f v)) (f ` set vs)) = Max (insert a (insert (f v) (f ` set vs)))"
    by (cases "vs = []") (simp_all add: max.assoc)
  with Cons.IH [of "max a (f v)"] show ?case by simp
qed

lemma calculate_bounding_box_nonempty:
  assumes "vs \<noteq> []"
  shows "calculate_bounding_box vs =
    \<lparr>bb_min = \<lparr>p_x = Min (v_x ` set vs), p_y = Min (v_y ` set vs), p_z = Min (v_z ` set vs)\<rparr>,
     bb_max = \<lparr>p_x = Max (v_x ` set vs), p_y = Max (v_y ` set vs), p_z = Max (v_z ` set vs)\<rparr>\<rparr>"
proof -
  from assms have "hd vs \<in> set vs" by simp
  then have "insert (f (hd vs)) (f ` set vs) = f ` set vs" for f :: "Vertex \<Rightarrow> real"
    by auto
  with assms show ?thesis
    by (simp add: calculate_bounding_box_def Let_def fold_min_Min fold_max_Max)
qed


lemma Min_with_anchors:
  fixes f :: "Vertex \<Rightarrow> real"
  assumes "finite A" and "\<forall>v\<in>A. lo \<le> f v" and "\<forall>v\<in>B. lo \<le> f v" and "finite B"
    and "\<exists>v\<in>B. f v = lo"
  shows "Min (f ` (A \<union> B)) = lo"
proof (rule Min_eqI)
  show "finite (f ` (A \<union> B))" using assms(1,4) by simp
  show "lo \<le> y" if "y \<in> f ` (A \<union> B)" for y using that assms(2,3) by auto
  show "lo \<in> f ` (A \<union> B)" using assms(5) by auto
qed

lemma Max_with_anchors:
  fixes f :: "Vertex \<Rightarrow> real"
  assumes "finite A" and "\<forall>v\<in>A. f v \<le> hi" and "\<forall>v\<in>B. f v \<le> hi" and "finite B"
    and "\<exists>v\<in>B. f v = hi"
  shows "Max (f ` (A \<union> B)) = hi"
proof (rule Max_eqI)
  show "finite (f ` (A \<union> B))" using assms(1,4) by simp
  show "y \<le> hi" if "y \<in> f ` (A \<union> B)" for y using that assms(2,3) by auto
  show "hi \<in> f ` (A \<union> B)" using assms(5) by auto
qed

lemma anchor_points_nonempty [simp]: "anchor_points bb \<noteq> []"
  by (simp add: anchor_points_def Let_def)

lemma anchors_restore_bounding_box:
  assumes "all_vs \<noteq> []" and "set grp \<subseteq> set all_vs"
  shows "calculate_bounding_box (grp @ anchor_points (calculate_bounding_box all_vs)) =
         calculate_bounding_box all_vs"
proof -
  let ?bb = "calculate_bounding_box all_vs"
  let ?B = "set (anchor_points ?bb)"
  note bb = calculate_bounding_box_nonempty [OF assms(1)]
  have lo: "Min (f ` set all_vs) \<le> f v" and hi: "f v \<le> Max (f ` set all_vs)"
    if "v \<in> set grp" for v and f :: "Vertex \<Rightarrow> real"
    using that assms(2) by (auto intro: Min_le Max_ge)
  have mm: "Min (f ` set all_vs) \<le> Max (f ` set all_vs)" for f :: "Vertex \<Rightarrow> real"
    using assms(1) by (simp add: Min_le_iff)
  have B: "?B = set (anchor_points ?bb)" ..
  have x: "Min (v_x ` (set grp \<union> ?B)) = Min (v_x ` set all_vs)"
    by (rule Min_with_anchors)
      (use lo [of _ v_x] mm [of v_x] in \<open>auto simp: bb anchor_points_def Let_def Vertex_new_def\<close>)
  have y: "Min (v_y ` (set grp \<union> ?B)) = Min (v_y ` set all_vs)"
    by (rule Min_with_anchors)
      (use lo [of _ v_y] mm [of v_y] in \<open>auto simp: bb anchor_points_def Let_def Vertex_new_def\<close>)
  have z: "Min (v_z ` (set grp \<union> ?B)) = Min (v_z ` set all_vs)"
    by (rule Min_with_anchors)
      (use lo [of _ v_z] mm [of v_z] in \<open>auto simp: bb anchor_points_def Let_def Vertex_new_def\<close>)
  have X: "Max (v_x ` (set grp \<union> ?B)) = Max (v_x ` set all_vs)"
    by (rule Max_with_anchors)
      (use hi [of _ v_x] mm [of v_x] in \<open>auto simp: bb anchor_points_def Let_def Vertex_new_def\<close>)
  have Y: "Max (v_y ` (set grp \<union> ?B)) = Max (v_y ` set all_vs)"
    by (rule Max_with_anchors)
      (use hi [of _ v_y] mm [of v_y] in \<open>auto simp: bb anchor_points_def Let_def Vertex_new_def\<close>)
  have Z: "Max (v_z ` (set grp \<union> ?B)) = Max (v_z ` set all_vs)"
    by (rule Max_with_anchors)
      (use hi [of _ v_z] mm [of v_z] in \<open>auto simp: bb anchor_points_def Let_def Vertex_new_def\<close>)
  have "calculate_bounding_box (grp @ anchor_points ?bb) =
    \<lparr>bb_min = \<lparr>p_x = Min (v_x ` (set grp \<union> ?B)), p_y = Min (v_y ` (set grp \<union> ?B)),
                p_z = Min (v_z ` (set grp \<union> ?B))\<rparr>,
     bb_max = \<lparr>p_x = Max (v_x ` (set grp \<union> ?B)), p_y = Max (v_y ` (set grp \<union> ?B)),
                p_z = Max (v_z ` (set grp \<union> ?B))\<rparr>\<rparr>"
    by (subst calculate_bounding_box_nonempty) simp_all
  also have "\<dots> = ?bb"
    unfolding x y z X Y Z by (simp only: bb)
  finally show ?thesis .
qed

section \<open>The chunk files and their descriptors\<close>

lemma write_chunks_spec:
  "write_chunks base_name h bb (enumerate n vertex_chunks) = Inr (chunk_infos, files) \<Longrightarrow>
   map vertex_count chunk_infos = map length vertex_chunks \<and>
   map bounding_box chunk_infos = map (\<lambda>c. calculate_bounding_box (map h c)) vertex_chunks \<and>
   map priority chunk_infos = [n ..< n + length vertex_chunks] \<and>
   map (\<lambda>f. vertex_records (snd f)) files = map (\<lambda>c. map h c @ anchor_points bb) vertex_chunks"
proof (induction vertex_chunks arbitrary: n chunk_infos files)
  case Nil
  then show ?case by simp
next
  case (Cons c cs)
  from Cons.prems obtain written written_size infos' files' where
    w: "write_ply_chunk (map h c) (Some bb) = Inr (written, written_size)"
    and r: "write_chunks base_name h bb (enumerate (Suc n) cs) = Inr (infos', files')"
    and i: "chunk_infos =
      \<lparr>filename = base_name @ ''_chunk_'' @ format_03d n @ ''.ply'', vertex_count = length c,
        bounding_box = calculate_bounding_box (map h c), priority = n,
        file_size = written_size\<rparr> # infos'"
    and f: "files = (base_name @ ''_chunk_'' @ format_03d n @ ''.ply'', written) # files'"
    by (auto simp: Let_def split: sum.splits)
  from w have "vertex_records written = map h c @ anchor_points bb"
    by (auto simp: write_ply_chunk_def Let_def split: if_splits)
  moreover have "[n ..< n + length (c # cs)] = n # [Suc n ..< Suc n + length cs]"
    by (simp add: upt_conv_Cons del: upt_Suc)
  ultimately show ?case
    using Cons.IH [OF r] i f by (simp del: upt_Suc)
qed

lemma write_chunks_total:
  assumes "list_all (\<lambda>c. list_all (\<lambda>vertex. packable (h vertex)) c) vertex_chunks"
  shows "\<exists>res. write_chunks base_name h bb (enumerate n vertex_chunks) = Inr res"
  using assms
proof (induction vertex_chunks arbitrary: n)
  case Nil
  then show ?case by simp
next
  case (Cons c cs)
  from Cons.prems have "list_all packable (map h c @ anchor_points bb)"
    by (simp add: list_all_iff anchor_points_def Let_def packable_def Vertex_new_def)
  moreover from Cons.prems
  have "list_all (\<lambda>c. list_all (\<lambda>vertex. packable (h vertex)) c) cs" by simp
  from Cons.IH [OF this, of "Suc n"] obtain infos files where
    "write_chunks base_name h bb (enumerate (Suc n) cs) = Inr (infos, files)"
    by (metis surj_pair)
  ultimately show ?case
    by (simp add: write_ply_chunk_def Let_def)
qed

lemma scale_normalize_empty [simp]: "scale_normalize h [] = (h, 1)"
  by (simp add: scale_normalize_def calculate_bounding_box_def max_dimension_def)

lemma chunk_vertices_radial_empty [simp]: "chunk_vertices_radial self h rng [] = Inr []"
  by (simp add: chunk_vertices_radial_def chunk_vertices_radial_log_def vertex_distances_def
        radial_loop.simps)

text \<open>
  C5: on the empty vertex list \<^verbatim>\<open>calculate_bounding_box\<close> returns the all-zero box,
  \<^verbatim>\<open>chunk_vertices_radial\<close> returns no chunk and raises nothing, and the pipeline
  returns a manifest with \<^verbatim>\<open>chunk_count = 0\<close>, writing no chunk file.
\<close>

theorem empty_vertex_set:
  "calculate_bounding_box [] =
     \<lparr>bb_min = \<lparr>p_x = 0, p_y = 0, p_z = 0\<rparr>, bb_max = \<lparr>p_x = 0, p_y = 0, p_z = 0\<rparr>\<rparr> \<and>
   chunk_vertices_radial self h rng [] = Inr [] \<and>
   (\<exists>manifest. chunk_ply_file self input_name base_name h rng [] = Inr (manifest, [], h) \<and>
      chunk_count manifest = 0 \<and> total_vertices manifest = 0 \<and> manifest_chunks manifest = [])"
  by (simp add: chunk_ply_file_def calculate_bounding_box_def)

lemma chunk_ply_file_run:
  assumes "chunk_ply_file self input_name base_name h rng vertices = Inr (manifest, files, h')"
  obtains scale_factor vertex_chunks where
    "scale_normalize h vertices = (h', scale_factor)"
    "chunk_vertices_radial self h' rng vertices = Inr vertex_chunks"
    "write_chunks base_name h' (calculate_bounding_box (map h' vertices))
       (enumerate 0 vertex_chunks) = Inr (manifest_chunks manifest, files)"
    "total_vertices manifest = length vertices"
    "chunk_count manifest = length (manifest_chunks manifest)"
    "overall_bounding_box manifest = calculate_bounding_box (map h' vertices)"
  using assms
  by (auto simp: chunk_ply_file_def Let_def split: prod.splits sum.splits)

text \<open>
  C6: in every run that returns its manifest, \<^verbatim>\<open>total_vertices\<close> is the sum of the
  descriptors' \<^verbatim>\<open>vertex_count\<close> and the number of decoded vertices.
\<close>

theorem manifest_total_vertices:
  assumes "chunk_ply_file self input_name base_name h rng vertices = Inr (manifest, files, h')"
  shows "total_vertices manifest = sum_list (map vertex_count (manifest_chunks manifest)) \<and>
         total_vertices manifest = length vertices"
proof -
  from assms obtain scale_factor vertex_chunks where
    c: "chunk_vertices_radial self h' rng vertices = Inr vertex_chunks"
    and w: "write_chunks base_name h' (calculate_bounding_box (map h' vertices))
       (enumerate 0 vertex_chunks) = Inr (manifest_chunks manifest, files)"
    and t: "total_vertices manifest = length vertices"
    by (rule chunk_ply_file_run)
  from write_chunks_spec [OF w]
  have "map vertex_count (manifest_chunks manifest) = map length vertex_chunks" by simp
  then have "sum_list (map vertex_count (manifest_chunks manifest)) = length (concat vertex_chunks)"
    by (simp add: length_concat)
  also have "\<dots> = size (mset (concat vertex_chunks))" by simp
  also have "\<dots> = size (mset vertices)"
    using returned_groups_mset [OF c] by simp
  finally show ?thesis using t by simp
qed

text \<open>
  A whole run: two vertices, one at the origin and one at (100, 50, 0), one vertex per
  chunk, every draw 0. The extent 100 is above 50, so the second vertex is scaled by 1/5.
\<close>

lemma run_two_chunks:
  "chunk_ply_file (PLYChunker_init (20 / 1048576)) ''m.ply'' ''m''
     ((\<lambda>_. Vertex_new 100 50 0 255 255 255)(0 := Vertex_new 0 0 0 255 255 255))
     (\<lambda>_. 0) [0, 1] =
   Inr (\<lparr>original_file = ''m.ply'', total_vertices = 2, chunk_count = 2,
         overall_bounding_box =
           \<lparr>bb_min = \<lparr>p_x = 0, p_y = 0, p_z = 0\<rparr>, bb_max = \<lparr>p_x = 20, p_y = 10, p_z = 0\<rparr>\<rparr>,
         manifest_target_chunk_size_mb = 20 / 1048576,
         manifest_chunks =
           [\<lparr>filename = ''m_chunk_000.ply'', vertex_count = 1,
              bounding_box =
                \<lparr>bb_min = \<lparr>p_x = 0, p_y = 0, p_z = 0\<rparr>, bb_max = \<lparr>p_x = 0, p_y = 0, p_z = 0\<rparr>\<rparr>,
              priority = 0, file_size = 310\<rparr>,
            \<lparr>filename = ''m_chunk_001.ply'', vertex_count = 1,
              bounding_box =
                \<lparr>bb_min = \<lparr>p_x = 20, p_y = 10, p_z = 0\<rparr>,
                   bb_max = \<lparr>p_x = 20, p_y = 10, p_z = 0\<rparr>\<rparr>,
              priority = 1, file_size = 310\<rparr>]\<rparr>,
        [(''m_chunk_000.ply'',
          \<lparr>header_text = ply_header_text 9,
             vertex_records =
               [Vertex_new 0 0 0 255 255 255,
                Vertex_new 0 0 0 0 0 0, Vertex_new 20 0 0 0 0 0, Vertex_new 0 10 0 0 0 0,
                Vertex_new 0 0 0 0 0 0, Vertex_new 20 10 0 0 0 0, Vertex_new 20 0 0 0 0 0,
                Vertex_new 0 10 0 0 0 0, Vertex_new 20 10 0 0 0 0]\<rparr>),
         (''m_chunk_001.ply'',
          \<lparr>header_text = ply_header_text 9,
             vertex_records =
               [Vertex_new 20 10 0 255 255 255,
                Vertex_new 0 0 0 0 0 0, Vertex_new 20 0 0 0 0 0, Vertex_new 0 10 0 0 0 0,
                Vertex_new 0 0 0 0 0 0, Vertex_new 20 10 0 0 0 0, Vertex_new 20 0 0 0 0 0,
                Vertex_new 0 10 0 0 0 0, Vertex_new 20 10 0 0 0 0]\<rparr>)],
        (\<lambda>_. Vertex_new 100 50 0 255 255 255)
          (0 := Vertex_new 0 0 0 255 255 255, 1 := Vertex_new 20 10 0 255 255 255))"
  by (simp add: chunk_ply_file_def scale_normalize_def calculate_bounding_box_def
        max_dimension_def scale_vertex_def write_ply_chunk_def packable_def anchor_points_def
        ply_header_text_def newline_def format_03d_def str_nat.simps chunk_vertices_radial_def
        radial_eval Let_def)

theorem manifest_total_vertices_witness:
  "\<exists>manifest files h'.
     chunk_ply_file (PLYChunker_init (20 / 1048576)) ''m.ply'' ''m''
       ((\<lambda>_. Vertex_new 100 50 0 255 255 255)(0 := Vertex_new 0 0 0 255 255 255))
       (\<lambda>_. 0) [0, 1] = Inr (manifest, files, h') \<and>
     total_vertices manifest = 2 \<and>
     sum_list (map vertex_count (manifest_chunks manifest)) = 2 \<and>
     length [0, 1 :: ref] = 2"
  using manifest_total_vertices [OF run_two_chunks]
  by (simp only: run_two_chunks) simp

lemma returned_groups_subset:
  assumes "chunk_vertices_radial self h rng vertices = Inr chunks" and "i < length chunks"
  shows "set (chunks ! i) \<subseteq> set vertices" and "chunks ! i \<noteq> []"
proof -
  from assms(2) have m: "chunks ! i \<in> set chunks" by simp
  from returned_groups_mset [OF assms(1)] have "set (concat chunks) = set vertices"
    by (rule mset_eq_setD)
  with m show "set (chunks ! i) \<subseteq> set vertices" by auto
  from returned_groups_nonempty [OF assms(1)] m show "chunks ! i \<noteq> []"
    by (auto simp: list_all_iff)
qed

text \<open>
  C7: in a run that returns its manifest, the vertex list written to each chunk file is the
  group's real vertices followed by the eight anchors at the corners of the overall
  bounding box after scaling, and its bounding box is that overall box; the descriptor's
  \<^verbatim>\<open>vertex_count\<close> counts the real vertices (at least one) and its
  \<^verbatim>\<open>bounding_box\<close> is computed from them alone.
\<close>

theorem chunk_files_report_overall_bounding_box:
  assumes "chunk_ply_file self input_name base_name h rng vertices = Inr (manifest, files, h')"
    and "i < chunk_count manifest"
  shows "length files = chunk_count manifest \<and>
     overall_bounding_box manifest = calculate_bounding_box (map h' vertices) \<and>
     (let descriptor = manifest_chunks manifest ! i;
          written = vertex_records (snd (files ! i))
      in 1 \<le> vertex_count descriptor \<and>
         set (take (vertex_count descriptor) written) \<subseteq> h' ` set vertices \<and>
         drop (vertex_count descriptor) written =
           anchor_points (overall_bounding_box manifest) \<and>
         calculate_bounding_box written = overall_bounding_box manifest \<and>
         bounding_box descriptor =
           calculate_bounding_box (take (vertex_count descriptor) written))"
proof -
  from assms(1) obtain scale_factor vertex_chunks where
    c: "chunk_vertices_radial self h' rng vertices = Inr vertex_chunks"
    and w: "write_chunks base_name h' (calculate_bounding_box (map h' vertices))
       (enumerate 0 vertex_chunks) = Inr (manifest_chunks manifest, files)"
    and n: "chunk_count manifest = length (manifest_chunks manifest)"
    and o: "overall_bounding_box manifest = calculate_bounding_box (map h' vertices)"
    by (rule chunk_ply_file_run)
  let ?bb = "calculate_bounding_box (map h' vertices)"
  note spec = write_chunks_spec [OF w]
  from spec have lv: "length (manifest_chunks manifest) = length vertex_chunks"
    by (metis length_map)
  from spec have lf: "length files = length vertex_chunks"
    by (metis length_map)
  from assms(2) n lv have i: "i < length vertex_chunks" by simp
  let ?g = "vertex_chunks ! i"
  from returned_groups_subset [OF c i] have sub: "set ?g \<subseteq> set vertices" and ne: "?g \<noteq> []"
    by simp_all
  from spec i lv have vc: "vertex_count (manifest_chunks manifest ! i) = length ?g"
    by (metis nth_map)
  from spec i lv have bb: "bounding_box (manifest_chunks manifest ! i) =
      calculate_bounding_box (map h' ?g)"
    by (metis (no_types, lifting) nth_map)
  from spec i lf have wr: "vertex_records (snd (files ! i)) = map h' ?g @ anchor_points ?bb"
    by (metis (no_types, lifting) nth_map)
  from sub ne have vne: "map h' vertices \<noteq> []" by auto
  from sub have "set (map h' ?g) \<subseteq> set (map h' vertices)" by auto
  from anchors_restore_bounding_box [OF vne this]
  have full: "calculate_bounding_box (map h' ?g @ anchor_points ?bb) = ?bb" .
  from ne have "1 \<le> length ?g" by (simp add: Suc_le_eq)
  with sub show ?thesis
    by (simp add: Let_def lf lv n o vc bb wr full image_mono)
qed

theorem chunk_files_report_overall_bounding_box_witness:
  "\<exists>manifest files h'.
     chunk_ply_file (PLYChunker_init (20 / 1048576)) ''m.ply'' ''m''
       ((\<lambda>_. Vertex_new 100 50 0 255 255 255)(0 := Vertex_new 0 0 0 255 255 255))
       (\<lambda>_. 0) [0, 1] = Inr (manifest, files, h') \<and>
     1 < chunk_count manifest \<and> length files = 2 \<and>
     overall_bounding_box manifest =
       \<lparr>bb_min = \<lparr>p_x = 0, p_y = 0, p_z = 0\<rparr>, bb_max = \<lparr>p_x = 20, p_y = 10, p_z = 0\<rparr>\<rparr> \<and>
     calculate_bounding_box (vertex_records (snd (files ! 1))) =
       \<lparr>bb_min = \<lparr>p_x = 0, p_y = 0, p_z = 0\<rparr>, bb_max = \<lparr>p_x = 20, p_y = 10, p_z = 0\<rparr>\<rparr> \<and>
     take (vertex_count (manifest_chunks manifest ! 1)) (vertex_records (snd (files ! 1))) =
       [Vertex_new 20 10 0 255 255 255] \<and>
     bounding_box (manifest_chunks manifest ! 1) =
       \<lparr>bb_min = \<lparr>p_x = 20, p_y = 10, p_z = 0\<rparr>, bb_max = \<lparr>p_x = 20, p_y = 10, p_z = 0\<rparr>\<rparr>"
proof -
  have i: "1 < chunk_count \<lparr>original_file = ''m.ply'', total_vertices = 2, chunk_count = 2,
         overall_bounding_box =
           \<lparr>bb_min = \<lparr>p_x = 0, p_y = 0, p_z = 0\<rparr>, bb_max = \<lparr>p_x = 20, p_y = 10, p_z = 0\<rparr>\<rparr>,
         manifest_target_chunk_size_mb = 20 / 1048576,
         manifest_chunks =
           [\<lparr>filename = ''m_chunk_000.ply'', vertex_count = 1,
              bounding_box =
                \<lparr>bb_min = \<lparr>p_x = 0, p_y = 0, p_z = 0\<rparr>, bb_max = \<lparr>p_x = 0, p_y = 0, p_z = 0\<rparr>\<rparr>,
              priority = 0, file_size = 310\<rparr>,
            \<lparr>filename = ''m_chunk_001.ply'', vertex_count = 1,
              bounding_box =
                \<lparr>bb_min = \<lparr>p_x = 20, p_y = 10, p_z = 0\<rparr>,
                   bb_max = \<lparr>p_x = 20, p_y = 10, p_z = 0\<rparr>\<rparr>,
              priority = 1, file_size = 310\<rparr>]\<rparr>"
    by simp
  from chunk_files_report_overall_bounding_box [OF run_two_chunks i]
  show ?thesis
    by (simp only: run_two_chunks)
      (simp add: Let_def calculate_bounding_box_def anchor_points_def Vertex_new_def)
qed

section \<open>Scaling\<close>

lemma scale_fold_distinct:
  "distinct vs \<Longrightarrow>
   fold (\<lambda>vertex h. h(vertex := g (h vertex))) vs h =
     (\<lambda>r. if r \<in> set vs then g (h r) else h r)"
proof (induction vs arbitrary: h)
  case Nil
  then show ?case by simp
next
  case (Cons v vs)
  then show ?case by (auto simp: fun_eq_iff)
qed

lemma Min_scaled:
  fixes f :: "Vertex \<Rightarrow> real"
  assumes "0 \<le> s" and "vs \<noteq> []"
  shows "Min ((\<lambda>v. f v * s) ` set vs) = Min (f ` set vs) * s"
proof -
  have "mono (\<lambda>x. x * s)" using assms(1) by (simp add: mono_def mult_right_mono)
  from mono_Min_commute [OF this, of "f ` set vs"] assms(2)
  show ?thesis by (simp add: image_image)
qed

lemma Max_scaled:
  fixes f :: "Vertex \<Rightarrow> real"
  assumes "0 \<le> s" and "vs \<noteq> []"
  shows "Max ((\<lambda>v. f v * s) ` set vs) = Max (f ` set vs) * s"
proof -
  have "mono (\<lambda>x. x * s)" using assms(1) by (simp add: mono_def mult_right_mono)
  from mono_Max_commute [OF this, of "f ` set vs"] assms(2)
  show ?thesis by (simp add: image_image)
qed

lemma max_dimension_scaled:
  assumes "0 \<le> s" and "vs \<noteq> []"
  shows "max_dimension (calculate_bounding_box (map (scale_vertex s) vs)) =
         max_dimension (calculate_bounding_box vs) * s"
proof -
  from assms(2) have ne: "map (scale_vertex s) vs \<noteq> []" by simp
  have bbs: "calculate_bounding_box (map (scale_vertex s) vs) =
    \<lparr>bb_min = \<lparr>p_x = Min (v_x ` set vs) * s, p_y = Min (v_y ` set vs) * s,
                p_z = Min (v_z ` set vs) * s\<rparr>,
     bb_max = \<lparr>p_x = Max (v_x ` set vs) * s, p_y = Max (v_y ` set vs) * s,
                p_z = Max (v_z ` set vs) * s\<rparr>\<rparr>"
    unfolding calculate_bounding_box_nonempty [OF ne]
    by (simp add: image_image scale_vertex_def Min_scaled [OF assms] Max_scaled [OF assms])
  show ?thesis
    unfolding bbs calculate_bounding_box_nonempty [OF assms(2)]
    by (simp add: max_dimension_def Let_def max_mult_distrib_right assms(1) left_diff_distrib)
qed

lemma max_dimension_empty [simp]: "max_dimension (calculate_bounding_box []) = 0"
  by (simp add: calculate_bounding_box_def max_dimension_def)

text \<open>
  C8: when the maximum extent (the largest of the three sizes of the bounding box) is at
  most 50, scale normalization leaves the store unchanged; when it exceeds 50, every
  vertex of the list has its coordinates multiplied in place by 20 divided by the extent,
  no other object changes, and the maximum extent afterwards is 20. The vertex list is
  the one the decoder built, one new object per record, so its references are distinct.
\<close>

theorem scale_normalization:
  assumes "distinct vertices" and "scale_normalize h vertices = (h', scale_factor)"
  shows "(max_dimension (calculate_bounding_box (map h vertices)) \<le> 50 \<longrightarrow>
            h' = h \<and> scale_factor = 1) \<and>
         (50 < max_dimension (calculate_bounding_box (map h vertices)) \<longrightarrow>
            scale_factor = 20 / max_dimension (calculate_bounding_box (map h vertices)) \<and>
            (\<forall>vertex\<in>set vertices.
               h' vertex = (h vertex)\<lparr>v_x := v_x (h vertex) * scale_factor,
                                      v_y := v_y (h vertex) * scale_factor,
                                      v_z := v_z (h vertex) * scale_factor\<rparr>) \<and>
            (\<forall>vertex. vertex \<notin> set vertices \<longrightarrow> h' vertex = h vertex) \<and>
            max_dimension (calculate_bounding_box (map h' vertices)) = 20)"
proof -
  let ?ext = "max_dimension (calculate_bounding_box (map h vertices))"
  have small: "h' = h \<and> scale_factor = 1" if "?ext \<le> 50"
    using that assms(2) by (simp add: scale_normalize_def Let_def)
  have large: "scale_factor = 20 / ?ext \<and>
      (\<forall>vertex\<in>set vertices.
         h' vertex = (h vertex)\<lparr>v_x := v_x (h vertex) * scale_factor,
                                v_y := v_y (h vertex) * scale_factor,
                                v_z := v_z (h vertex) * scale_factor\<rparr>) \<and>
      (\<forall>vertex. vertex \<notin> set vertices \<longrightarrow> h' vertex = h vertex) \<and>
      max_dimension (calculate_bounding_box (map h' vertices)) = 20" if big: "50 < ?ext"
  proof -
    from big assms(2) have sf: "scale_factor = 20 / ?ext"
      and f: "h' = fold (\<lambda>vertex h. h(vertex := scale_vertex scale_factor (h vertex))) vertices h"
      by (auto simp: scale_normalize_def Let_def)
    from f have h': "h' = (\<lambda>r. if r \<in> set vertices then scale_vertex scale_factor (h r) else h r)"
      by (simp only: scale_fold_distinct [OF assms(1)])
    from big have ne: "map h vertices \<noteq> []" by (cases vertices) auto
    from big sf have pos: "0 \<le> scale_factor" by simp
    from h' have "map h' vertices = map (scale_vertex scale_factor) (map h vertices)" by simp
    then have "max_dimension (calculate_bounding_box (map h' vertices)) = ?ext * scale_factor"
      by (simp only: max_dimension_scaled [OF pos ne])
    with big sf have "max_dimension (calculate_bounding_box (map h' vertices)) = 20" by simp
    with sf h' show ?thesis by (simp add: scale_vertex_def)
  qed
  from small large show ?thesis by blast
qed


lemma scale_two_vertices:
  "scale_normalize ((\<lambda>_. Vertex_new 100 50 0 255 255 255)(0 := Vertex_new 0 0 0 255 255 255))
     [0, 1] =
   ((\<lambda>_. Vertex_new 100 50 0 255 255 255)
      (0 := Vertex_new 0 0 0 255 255 255, 1 := Vertex_new 20 10 0 255 255 255), 1 / 5)"
  by (simp add: scale_normalize_def calculate_bounding_box_def max_dimension_def
        scale_vertex_def Vertex_new_def Let_def)

lemma scale_small_model:
  "scale_normalize (\<lambda>_. Vertex_new 5 5 5 255 255 255) [0] =
   (\<lambda>_. Vertex_new 5 5 5 255 255 255, 1)"
  by (simp add: scale_normalize_def calculate_bounding_box_def max_dimension_def
        Vertex_new_def Let_def)

theorem scale_normalization_witness:
  "distinct [0, 1 :: ref] \<and>
   max_dimension (calculate_bounding_box
     (map ((\<lambda>_. Vertex_new 100 50 0 255 255 255)(0 := Vertex_new 0 0 0 255 255 255))
        [0, 1 :: ref])) = 100 \<and>
   scale_normalize ((\<lambda>_. Vertex_new 100 50 0 255 255 255)(0 := Vertex_new 0 0 0 255 255 255))
     [0, 1] =
   ((\<lambda>_. Vertex_new 100 50 0 255 255 255)
      (0 := Vertex_new 0 0 0 255 255 255, 1 := Vertex_new 20 10 0 255 255 255), 1 / 5) \<and>
   max_dimension (calculate_bounding_box
     (map ((\<lambda>_. Vertex_new 100 50 0 255 255 255)
        (0 := Vertex_new 0 0 0 255 255 255, 1 := Vertex_new 20 10 0 255 255 255))
        [0, 1 :: ref])) = 20 \<and>
   distinct [0 :: ref] \<and>
   max_dimension (calculate_bounding_box (map (\<lambda>_. Vertex_new 5 5 5 255 255 255) [0 :: ref])) = 0 \<and>
   scale_normalize (\<lambda>_. Vertex_new 5 5 5 255 255 255) [0] =
     (\<lambda>_. Vertex_new 5 5 5 255 255 255, 1)"
proof -
  have d2: "distinct [0, 1 :: ref]" and d1: "distinct [0 :: ref]" by simp_all
  have ev: ?thesis
    by (simp only: scale_two_vertices scale_small_model)
      (simp add: calculate_bounding_box_def max_dimension_def Vertex_new_def Let_def)
  from scale_normalization [OF d2 scale_two_vertices] scale_normalization [OF d1 scale_small_model]
  show ?thesis by - (rule ev)
qed

section \<open>A header without \<^verbatim>\<open>end_header\<close>\<close>

text \<open>
  At the end of the file \<^verbatim>\<open>readline\<close> returns the empty bytes object, which is not
  \<^verbatim>\<open>end_header\<close>, and nothing else leaves the loop: a result is only ever returned
  while bytes are left.
\<close>

lemma read_header_consumes:
  assumes "read_header f header_lines size_so_far = Some r"
  shows "f \<noteq> []"
  apply (rule read_header.raw_induct [where P = "\<lambda>f hl n r. f \<noteq> []", OF _ assms])
  subgoal premises prems for rh f hl n r
  proof
    assume "f = []"
    with prems(2) have "rh [] (hl @ [[]]) n = Some r"
      by (simp add: decode_ascii_def strip_def)
    from prems(1) [OF this] show False by simp
  qed
  done

lemma read_header_at_eof: "read_header [] header_lines size_so_far = None"
  using read_header_consumes [of "[]" header_lines size_so_far]
  by (cases "read_header [] header_lines size_so_far") auto

lemma read_header_line:
  assumes "readline f = (line, f')" and "list_all is_ascii line"
    and "strip line \<noteq> ''end_header''"
  shows "read_header f header_lines size_so_far =
         read_header f' (header_lines @ [strip line]) (size_so_far + length line)"
  using assms by (subst read_header.simps) (simp add: decode_ascii_def Let_def)

text \<open>
  C9: on a file whose header lacks the \<^verbatim>\<open>end_header\<close> line the method does not
  terminate abnormally. On the two-line file below it reads both lines, reaches the end
  of the file and loops for ever: it raises nothing and returns nothing.
\<close>

theorem analyze_ply_file_without_end_header:
  "analyze_ply_file py_int (''ply'' @ [CHR 0x0A] @ ''format ascii 1.0'' @ [CHR 0x0A]) = None"
proof -
  have 1: "read_header (''ply'' @ [CHR 0x0A] @ ''format ascii 1.0'' @ [CHR 0x0A]) [] 0 =
      read_header (''format ascii 1.0'' @ [CHR 0x0A]) ([] @ [strip (''ply'' @ [CHR 0x0A])])
        (0 + length (''ply'' @ [CHR 0x0A]))"
    by (rule read_header_line) (simp_all add: strip_def is_space_def is_ascii_def)
  have 2: "read_header (''format ascii 1.0'' @ [CHR 0x0A]) hl n =
      read_header [] (hl @ [strip (''format ascii 1.0'' @ [CHR 0x0A])])
        (n + length (''format ascii 1.0'' @ [CHR 0x0A]))" for hl n
    by (rule read_header_line) (simp_all add: strip_def is_space_def is_ascii_def)
  show ?thesis
    unfolding analyze_ply_file_def 1 2 read_header_at_eof by simp
qed

text \<open>With the line present the loop returns the stripped lines and the bytes read.\<close>

lemma header_lines_example:
  "read_header (''ply'' @ [CHR 0x0A] @ ''end_header '' @ [CHR 0x0D, CHR 0x0A] @ ''0 0 0'') [] 0 =
     Some (Inr ([''ply'', ''end_header''], 17))"
proof -
  have 1: "read_header (''ply'' @ [CHR 0x0A] @ ''end_header '' @ [CHR 0x0D, CHR 0x0A] @ ''0 0 0'') [] 0 =
      read_header (''end_header '' @ [CHR 0x0D, CHR 0x0A] @ ''0 0 0'') ([] @ [strip (''ply'' @ [CHR 0x0A])])
        (0 + length (''ply'' @ [CHR 0x0A]))"
    by (rule read_header_line) (simp_all add: strip_def is_space_def is_ascii_def)
  show ?thesis
    unfolding 1
    by (subst read_header.simps) (simp add: decode_ascii_def strip_def is_space_def is_ascii_def Let_def)
qed

end
